theory Spec2Isabelle
  imports Main "HOL-Library.Word" "HOL-Library.Signed_Division" "HOL-Library.Monad_Syntax"
begin

unbundle bit_operations_syntax

section \<open>The byte source and the buffered reader\<close>

text \<open>
  The decoder reads through an Arduino \<^verbatim>\<open>File\<close>, a library object outside the
  repository. Only two of its operations are used: \<^verbatim>\<open>read(buf, size)\<close>, which copies
  the bytes that are left (at most \<open>size\<close>) and returns how many it copied, and
  \<^verbatim>\<open>seek(pos, SeekSet)\<close>, whose argument is an unsigned 32-bit offset. A file is
  its content and its position.

  Results are options throughout: \<open>None\<close> stands for a run that has no defined result
  in C (an access outside an array, a read of memory never written, a division by zero,
  a signed overflow) or that has used up the fuel of one of its loops.
\<close>

record File =
  fdata :: "8 word list"
  fpos :: nat

definition fd_read :: "File \<Rightarrow> nat \<Rightarrow> 8 word list \<times> File" where
  "fd_read f sz =
     (let bs = take sz (drop (fpos f) (fdata f))
      in (bs, f\<lparr>fpos := fpos f + length bs\<rparr>))"

definition fd_seek :: "File \<Rightarrow> int \<Rightarrow> File" where
  "fd_seek f p = f\<lparr>fpos := nat (p mod 2 ^ 32)\<rparr>"

definition GIF_BUF_SIZE :: nat where
  "GIF_BUF_SIZE = 1024"

text \<open>
  The private members of \<^verbatim>\<open>GifClass\<close> together with the file they read from.
  \<^verbatim>\<open>gif_buf_idx\<close> and \<^verbatim>\<open>gif_buf_last_idx\<close> stay between 0 and 1024 in every
  defined run, \<^verbatim>\<open>file_pos\<close> is a 16-bit counter that wraps.
\<close>

record reader =
  fd :: File
  gif_buf :: "8 word list"
  gif_buf_last_idx :: int
  gif_buf_idx :: int
  file_pos :: "16 word"

definition gif_buf_fill :: "reader \<Rightarrow> reader" where
  "gif_buf_fill r =
     (let (bs, f) = fd_read (fd r) GIF_BUF_SIZE
      in r\<lparr>fd := f, gif_buf := bs @ drop (length bs) (gif_buf r),
            gif_buf_last_idx := int (length bs), gif_buf_idx := 0\<rparr>)"

text \<open>\<^verbatim>\<open>uint8_t gif_buf_read(File *fd)\<close>\<close>

definition gif_buf_read1 :: "reader \<Rightarrow> (8 word \<times> reader) option" where
  "gif_buf_read1 r =
     (let r1 = (if gif_buf_idx r = gif_buf_last_idx r then gif_buf_fill r else r);
          i = gif_buf_idx r1
      in if 0 \<le> i \<and> i < int GIF_BUF_SIZE \<and> nat i < length (gif_buf r1)
         then Some (gif_buf r1 ! nat i, r1\<lparr>gif_buf_idx := i + 1, file_pos := file_pos r1 + 1\<rparr>)
         else None)"

text \<open>\<^verbatim>\<open>gif_buf_read(File *fd, uint8_t *dest, int16_t len)\<close>: the bytes stored at \<open>dest\<close>.\<close>

fun gif_buf_read :: "reader \<Rightarrow> nat \<Rightarrow> (8 word list \<times> reader) option" where
  "gif_buf_read r 0 = Some ([], r)"
| "gif_buf_read r (Suc n) =
     do { (b, r1) \<leftarrow> gif_buf_read1 r;
          (bs, r2) \<leftarrow> gif_buf_read r1 n;
          Some (b # bs, r2) }"

text \<open>The low byte is read first (the operands of \<open>+\<close> taken from left to right).\<close>

definition gif_buf_read16 :: "reader \<Rightarrow> (16 word \<times> reader) option" where
  "gif_buf_read16 r =
     do { (lo, r1) \<leftarrow> gif_buf_read1 r;
          (hi, r2) \<leftarrow> gif_buf_read1 r1;
          Some (ucast lo + push_bit 8 (ucast hi), r2) }"

definition gif_buf_seek :: "reader \<Rightarrow> int \<Rightarrow> reader" where
  "gif_buf_seek r n =
     (let remaining = gif_buf_last_idx r - gif_buf_idx r
      in if n > remaining
         then r\<lparr>fd := fd_seek (fd r) (sint (file_pos r) + n - remaining),
                gif_buf_idx := gif_buf_last_idx r,
                file_pos := file_pos r + word_of_int n\<rparr>
         else r\<lparr>gif_buf_idx := gif_buf_idx r + n,
                file_pos := file_pos r + word_of_int n\<rparr>)"

section \<open>Palettes\<close>

text \<open>The field \<^verbatim>\<open>len\<close> of \<^verbatim>\<open>gd_Palette\<close> is \<open>pal_len\<close> here.\<close>

record gd_Palette =
  pal_len :: int
  colors :: "16 word list"

text \<open>The expression of \<^verbatim>\<open>read_palette\<close>, computed in \<^verbatim>\<open>int\<close> and stored in 16 bits.\<close>

definition rgb_store :: "8 word \<Rightarrow> 8 word \<Rightarrow> 8 word \<Rightarrow> 16 word" where
  "rgb_store r g b =
     ucast (push_bit 8 ((ucast r :: 32 word) AND 0xF8)
            OR push_bit 3 ((ucast g :: 32 word) AND 0xFC)
            OR drop_bit 3 ((ucast b :: 32 word) AND 0xF8))"

fun read_palette_loop :: "reader \<Rightarrow> gd_Palette \<Rightarrow> nat \<Rightarrow> nat \<Rightarrow> (gd_Palette \<times> reader) option" where
  "read_palette_loop r dest i 0 = Some (dest, r)"
| "read_palette_loop r dest i (Suc k) =
     do { (cr, r1) \<leftarrow> gif_buf_read1 r;
          (cg, r2) \<leftarrow> gif_buf_read1 r1;
          (cb, r3) \<leftarrow> gif_buf_read1 r2;
          if i < length (colors dest)
          then read_palette_loop r3 (dest\<lparr>colors := (colors dest)[i := rgb_store cr cg cb]\<rparr>) (Suc i) k
          else None }"

definition read_palette :: "reader \<Rightarrow> gd_Palette \<Rightarrow> nat \<Rightarrow> (gd_Palette \<times> reader) option" where
  "read_palette r dest num_colors =
     read_palette_loop r (dest\<lparr>pal_len := int num_colors\<rparr>) 0 num_colors"

text \<open>The conversion as the specification words it, on 16-bit values.\<close>

definition rgb565_spec :: "8 word \<Rightarrow> 8 word \<Rightarrow> 8 word \<Rightarrow> 16 word" where
  "rgb565_spec r g b =
     push_bit 8 (ucast (r AND 0xF8)) OR push_bit 3 (ucast (g AND 0xFC)) OR drop_bit 3 (ucast (b AND 0xF8))"

fun triples :: "8 word list \<Rightarrow> (8 word \<times> 8 word \<times> 8 word) list" where
  "triples (r # g # b # bs) = (r, g, b) # triples bs"
| "triples bs = []"

section \<open>Interlaced rows\<close>

text \<open>The value of an \<^verbatim>\<open>int\<close> converted to \<^verbatim>\<open>int16_t\<close>.\<close>

definition s16 :: "int \<Rightarrow> int" where
  "s16 v = sint (word_of_int v :: 16 word)"

definition interlaced_line_index :: "int \<Rightarrow> int \<Rightarrow> int" where
  "interlaced_line_index h y =
     (let p = s16 ((h - 1) sdiv 8 + 1) in
      if y < p then s16 (y * 8) else
      let y1 = s16 (y - p); p1 = s16 ((h - 5) sdiv 8 + 1) in
      if y1 < p1 then s16 (y1 * 8 + 4) else
      let y2 = s16 (y1 - p1); p2 = s16 ((h - 3) sdiv 4 + 1) in
      if y2 < p2 then s16 (y2 * 4 + 2) else
      let y3 = s16 (y2 - p2) in s16 (y3 * 2 + 1))"

text \<open>The four-pass order of a frame of \<open>h\<close> rows, as the specification describes it.\<close>

definition interlace_order :: "nat \<Rightarrow> nat list" where
  "interlace_order h =
     filter (\<lambda>r. r mod 8 = 0) [0..<h] @ filter (\<lambda>r. r mod 8 = 4) [0..<h]
     @ filter (\<lambda>r. r mod 4 = 2) [0..<h] @ filter (\<lambda>r. r mod 2 = 1) [0..<h]"

section \<open>The session\<close>

record gd_GCE =
  delay :: "16 word"
  tindex :: "8 word"
  disposal :: "8 word"
  input :: "8 word"
  transparency :: "8 word"

record gd_Entry =
  len :: int
  prefix :: "16 word"
  suffix :: "8 word"

text \<open>
  The table is allocated with \<^verbatim>\<open>malloc\<close> and never cleared: an entry that no
  assignment has written yet has no value, and reading it has no defined result. The
  entries are a partial map for that reason, with room for the indices below 4096.
  The field \<^verbatim>\<open>bulk\<close> is never used.
\<close>

record gd_Table =
  nentries :: int
  entries :: "nat \<rightharpoonup> gd_Entry"

datatype palette_ref = Gct | Lct

text \<open>
  \<^verbatim>\<open>gd_GIF\<close>. The file pointer is kept with the reader. The three callbacks
  \<^verbatim>\<open>plain_text\<close>, \<^verbatim>\<open>comment\<close> and \<^verbatim>\<open>application\<close> are null from
  \<^verbatim>\<open>calloc\<close> on and assigned nowhere in the program, so the branches that call them
  are never taken.
\<close>

record gd_GIF =
  anim_start :: int
  width :: "16 word"
  height :: "16 word"
  depth :: "16 word"
  loop_count :: "16 word"
  gce :: gd_GCE
  palette :: palette_ref
  lct :: gd_Palette
  gct :: gd_Palette
  fx :: "16 word"
  fy :: "16 word"
  fw :: "16 word"
  fh :: "16 word"
  bgindex :: "8 word"
  table :: gd_Table
  processed_first_frame :: bool

definition zero_palette :: gd_Palette where
  "zero_palette = \<lparr>pal_len = 0, colors = replicate 256 0\<rparr>"

definition zero_gce :: gd_GCE where
  "zero_gce = \<lparr>delay = 0, tindex = 0, disposal = 0, input = 0, transparency = 0\<rparr>"

definition new_table :: gd_Table where
  "new_table = \<lparr>nentries = 0, entries = Map.empty\<rparr>"

text \<open>
  \<^verbatim>\<open>gd_open_gif\<close>: the inner option is the pointer returned (\<open>None\<close> for
  \<^verbatim>\<open>NULL\<close>). The reader passed in is the state of the \<^verbatim>\<open>GifClass\<close> object, with
  whatever an earlier session left in \<^verbatim>\<open>gif_buf\<close>, and the file to open.
\<close>

definition gd_open_gif :: "reader \<Rightarrow> (gd_GIF option \<times> reader) option" where
  "gd_open_gif r0 =
     do { let r = r0\<lparr>gif_buf_last_idx := int GIF_BUF_SIZE, gif_buf_idx := int GIF_BUF_SIZE,
                      file_pos := 0\<rparr>;
          (sigver, r) \<leftarrow> gif_buf_read r 3;
          if sigver \<noteq> [0x47, 0x49, 0x46] then Some (None, r) else
          do { (sigver, r) \<leftarrow> gif_buf_read r 3;
               if sigver \<noteq> [0x38, 0x39, 0x61] then Some (None, r) else
               do { (w, r) \<leftarrow> gif_buf_read16 r;
                    (h, r) \<leftarrow> gif_buf_read16 r;
                    (fdsz, r) \<leftarrow> gif_buf_read1 r;
                    if fdsz AND 0x80 = 0 then Some (None, r) else
                    do { let d = ucast (drop_bit 4 fdsz AND 7) + 1;
                         let gct_sz = 2 ^ (unat (fdsz AND 0x07) + 1);
                         (bgidx, r) \<leftarrow> gif_buf_read1 r;
                         (aspect, r) \<leftarrow> gif_buf_read1 r;
                         (pal, r) \<leftarrow> read_palette r zero_palette gct_sz;
                         Some (Some \<lparr>anim_start = sint (file_pos r), width = w, height = h,
                                      depth = d, loop_count = 0, gce = zero_gce, palette = Gct,
                                      lct = zero_palette, gct = pal, fx = 0, fy = 0, fw = 0,
                                      fh = 0, bgindex = bgidx, table = new_table,
                                      processed_first_frame = False\<rparr>, r) } } } }"

definition gd_rewind :: "gd_GIF \<Rightarrow> reader \<Rightarrow> reader" where
  "gd_rewind gif r =
     r\<lparr>fd := fd_seek (fd r) (anim_start gif), file_pos := word_of_int (anim_start gif),
       gif_buf_idx := gif_buf_last_idx r\<rparr>"

section \<open>Extension blocks\<close>








section \<open>The dictionary\<close>

fun reset_loop :: "(nat \<rightharpoonup> gd_Entry) \<Rightarrow> nat \<Rightarrow> nat \<Rightarrow> (nat \<rightharpoonup> gd_Entry) option" where
  "reset_loop es k 0 = Some es"
| "reset_loop es k (Suc c) =
     (if k < 4096
      then reset_loop (es(k \<mapsto> \<lparr>len = 1, prefix = 0xFFF, suffix = of_nat k\<rparr>)) (Suc k) c
      else None)"

text \<open>
  \<^verbatim>\<open>reset_table\<close>: the loop writes the entries below \<open>2 ^ key_size\<close>; from a key
  size of 13 on it leaves the array, and from 16 on its 16-bit counter never reaches
  the bound.
\<close>

definition reset_table :: "gd_Table \<Rightarrow> nat \<Rightarrow> gd_Table option" where
  "reset_table t ks =
     (if ks < 16
      then do { es \<leftarrow> reset_loop (entries t) 0 (2 ^ ks);
                Some \<lparr>nentries = 2 ^ ks + 2, entries = es\<rparr> }
      else None)"

definition add_entry :: "gd_Table \<Rightarrow> int \<Rightarrow> 16 word \<Rightarrow> 8 word \<Rightarrow> (int \<times> gd_Table) option" where
  "add_entry t l p s =
     (let n = nentries t in
      if 0 \<le> n \<and> n < 4096
      then Some (if (n + 1) AND n = 0 then 1 else 0,
                 t\<lparr>nentries := n + 1,
                   entries := (entries t)(nat n \<mapsto> \<lparr>len = l, prefix = p, suffix = s\<rparr>)\<rparr>)
      else None)"

definition lookup_entry :: "gd_Table \<Rightarrow> int \<Rightarrow> gd_Entry option" where
  "lookup_entry t k = (if 0 \<le> k \<and> k < 4096 then entries t (nat k) else None)"

text \<open>
  The assignment \<^verbatim>\<open>entries[nentries - 1].suffix = entry.suffix\<close>. On an entry never
  written before, the two other fields stay without a value, and so does the entry.
\<close>

definition patch_suffix :: "gd_Table \<Rightarrow> 8 word \<Rightarrow> gd_Table option" where
  "patch_suffix t s =
     (let i = nentries t - 1 in
      if 0 \<le> i \<and> i < 4096
      then Some (case entries t (nat i) of
                   None \<Rightarrow> t
                 | Some e \<Rightarrow> t\<lparr>entries := (entries t)(nat i \<mapsto> e\<lparr>suffix := s\<rparr>)\<rparr>)
      else None)"

section \<open>Reading codes\<close>

function get_key_loop ::
  "nat \<Rightarrow> 8 word \<Rightarrow> nat \<Rightarrow> 16 word \<Rightarrow> 8 word \<Rightarrow> 8 word \<Rightarrow> reader
   \<Rightarrow> (16 word \<times> 8 word \<times> 8 word \<times> reader) option" where
  "get_key_loop ks sh bits_read k sl b r =
     (if bits_read < ks
      then let rpad = (unat sh + bits_read) mod 8 in
           (case (if rpad = 0
                  then do { (sl1, r1) \<leftarrow> (if sl = 0 then gif_buf_read1 r else Some (sl, r));
                            (b1, r2) \<leftarrow> gif_buf_read1 r1;
                            Some (sl1 - 1, b1, r2) }
                  else Some (sl, b, r)) of
              None \<Rightarrow> None
            | Some (sl2, b2, r3) \<Rightarrow>
                get_key_loop ks sh (bits_read + min (ks - bits_read) (8 - rpad))
                  (k OR push_bit bits_read (ucast (drop_bit rpad b2))) sl2 b2 r3)
      else Some (k, sl, b, r))"
  by pat_completeness auto
termination
  by (relation "measure (\<lambda>(ks, sh, bits_read, k, sl, b, r). ks - bits_read)") auto

declare get_key_loop.simps [simp del]

text \<open>\<^verbatim>\<open>get_key\<close> returns the code and the new \<^verbatim>\<open>sub_len\<close>, \<^verbatim>\<open>shift\<close> and \<^verbatim>\<open>byte\<close>.\<close>

definition get_key ::
  "nat \<Rightarrow> 8 word \<Rightarrow> 8 word \<Rightarrow> 8 word \<Rightarrow> reader
   \<Rightarrow> (16 word \<times> 8 word \<times> 8 word \<times> 8 word \<times> reader) option" where
  "get_key ks sl sh b r =
     do { (k, sl1, b1, r1) \<leftarrow> get_key_loop ks sh 0 0 sl b r;
          Some (take_bit ks k, sl1, of_nat ((unat sh + ks) mod 8), b1, r1) }"

section \<open>Decoding an image block\<close>

definition in_int32 :: "int \<Rightarrow> bool" where
  "in_int32 v \<longleftrightarrow> - 2147483648 \<le> v \<and> v \<le> 2147483647"

text \<open>
  One pass through the body of the inner loop of \<^verbatim>\<open>read_image_data\<close> up to the
  assignment to \<^verbatim>\<open>frame\<close>. The caller's buffer is the list \<open>frame\<close>.
\<close>

definition put_pixel ::
  "gd_GIF \<Rightarrow> int \<Rightarrow> 8 word \<Rightarrow> int \<Rightarrow> gd_Entry \<Rightarrow> 8 word list \<Rightarrow> 8 word list option" where
  "put_pixel gif interlace ti off e frame =
     (let p = off + len e - 1 in
      if \<not> in_int32 p \<or> fw gif = 0 then None else
      let x = p smod uint (fw gif);
          y0 = p sdiv uint (fw gif);
          y = (if interlace \<noteq> 0 then interlaced_line_index (sint (fh gif)) (s16 y0) else y0)
      in if \<not> processed_first_frame gif \<or> ti \<noteq> suffix e
         then let a = (uint (fy gif) + y) * uint (width gif);
                  i = a + uint (fx gif) + x
              in if in_int32 a \<and> in_int32 (a + uint (fx gif)) \<and> 0 \<le> i \<and> i < int (length frame)
                 then Some (frame[nat i := suffix e])
                 else None
         else Some frame)"

fun emit_loop ::
  "nat \<Rightarrow> gd_GIF \<Rightarrow> int \<Rightarrow> 8 word \<Rightarrow> int \<Rightarrow> gd_Entry \<Rightarrow> 8 word list
   \<Rightarrow> (gd_Entry \<times> 8 word list) option" where
  "emit_loop 0 gif interlace ti off e frame = None"
| "emit_loop (Suc n) gif interlace ti off e frame =
     do { frame1 \<leftarrow> put_pixel gif interlace ti off e frame;
          if prefix e = 0xFFF then Some (e, frame1)
          else do { e1 \<leftarrow> lookup_entry (table gif) (uint (prefix e));
                    emit_loop n gif interlace ti off e1 frame1 } }"

text \<open>The local variables of \<^verbatim>\<open>read_image_data\<close> that live across its outer loop.\<close>

record locals =
  sub_len :: "8 word"
  shift :: "8 word"
  byte :: "8 word"
  table_is_full :: bool
  init_key_size :: nat
  key_size :: nat
  frm_off :: int
  str_len :: int
  key :: "16 word"
  clear :: "16 word"
  stop :: "16 word"
  ret :: int
  entry :: gd_Entry

text \<open>The first statement of the outer loop: a clear code resets, any other code adds an entry.\<close>

definition loop_head :: "gd_GIF \<Rightarrow> locals \<Rightarrow> (gd_GIF \<times> locals) option" where
  "loop_head gif v =
     (if key v = clear v
      then Some (gif\<lparr>table := (table gif)\<lparr>nentries := 2 ^ (init_key_size v - 1) + 2\<rparr>\<rparr>,
                 v\<lparr>key_size := init_key_size v, table_is_full := False\<rparr>)
      else if \<not> table_is_full v
      then (if in_int32 (str_len v + 1)
            then do { (rt, t) \<leftarrow> add_entry (table gif) (str_len v + 1) (key v) (suffix (entry v));
                      Some (gif\<lparr>table := t\<rparr>,
                            if nentries t = 0x1000 then v\<lparr>ret := 0, table_is_full := True\<rparr>
                            else v\<lparr>ret := rt\<rparr>) }
            else None)
      else Some (gif, v))"

text \<open>
  The rest of the body of the outer loop. The flag returned says whether the loop goes
  on (\<^verbatim>\<open>continue\<close> or the end of the body) or is left (\<^verbatim>\<open>break\<close>).
\<close>

definition loop_body ::
  "nat \<Rightarrow> int \<Rightarrow> gd_GIF \<Rightarrow> locals \<Rightarrow> reader \<Rightarrow> 8 word list
   \<Rightarrow> (bool \<times> gd_GIF \<times> locals \<times> reader \<times> 8 word list) option" where
  "loop_body n interlace gif v r frame =
     do { (gif1, v1) \<leftarrow> loop_head gif v;
          (k, sl, sh, b, r1) \<leftarrow> get_key (key_size v1) (sub_len v1) (shift v1) (byte v1) r;
          let v2 = v1\<lparr>key := k, sub_len := sl, shift := sh, byte := b\<rparr>;
          if k = clear v2 then Some (True, gif1, v2, r1, frame)
          else if k = stop v2 then Some (False, gif1, v2, r1, frame)
          else
          do { let v3 = (if ret v2 = 1 then v2\<lparr>key_size := key_size v2 + 1\<rparr> else v2);
               e \<leftarrow> lookup_entry (table gif1) (uint k);
               (e1, frame1) \<leftarrow> emit_loop n gif1 interlace (tindex (gce gif1)) (frm_off v3) e frame;
               let off = frm_off v3 + len e;
               if \<not> in_int32 off then None else
               do { let v4 = v3\<lparr>entry := e1, str_len := len e, frm_off := off\<rparr>;
                    gif2 \<leftarrow> (if uint k < nentries (table gif1) - 1 \<and> \<not> table_is_full v4
                             then do { t \<leftarrow> patch_suffix (table gif1) (suffix e1);
                                       Some (gif1\<lparr>table := t\<rparr>) }
                             else Some gif1);
                    Some (True, gif2, v4, r1, frame1) } } }"

fun read_image_loop ::
  "nat \<Rightarrow> int \<Rightarrow> gd_GIF \<Rightarrow> locals \<Rightarrow> reader \<Rightarrow> 8 word list
   \<Rightarrow> (gd_GIF \<times> locals \<times> reader \<times> 8 word list) option" where
  "read_image_loop 0 interlace gif v r frame = None"
| "read_image_loop (Suc n) interlace gif v r frame =
     (case loop_body n interlace gif v r frame of
        None \<Rightarrow> None
      | Some (go_on, gif1, v1, r1, frame1) \<Rightarrow>
          if go_on then read_image_loop n interlace gif1 v1 r1 frame1
          else Some (gif1, v1, r1, frame1))"

text \<open>
  \<^verbatim>\<open>read_image_data\<close>: the result is the value returned together with the session,
  the reader and the caller's buffer as the call leaves them.
\<close>

definition read_image_data ::
  "nat \<Rightarrow> gd_GIF \<Rightarrow> int \<Rightarrow> reader \<Rightarrow> 8 word list
   \<Rightarrow> (int \<times> gd_GIF \<times> reader \<times> 8 word list) option" where
  "read_image_data n gif interlace r frame =
     do { (b, r1) \<leftarrow> gif_buf_read1 r;
          let ks = unat b;
          t \<leftarrow> reset_table (table gif) ks;
          (k, sl, sh, b1, r2) \<leftarrow> get_key (ks + 1) 0 0 b r1;
          let v = \<lparr>sub_len = sl, shift = sh, byte = b1, table_is_full = False,
                   init_key_size = ks + 1, key_size = ks + 1, frm_off = 0, str_len = 0,
                   key = k, clear = push_bit ks 1, stop = push_bit ks 1 + 1, ret = 0,
                   entry = \<lparr>len = 0, prefix = 0, suffix = 0\<rparr>\<rparr>;
          (gif1, v1, r3, frame1) \<leftarrow> read_image_loop n interlace (gif\<lparr>table := t\<rparr>) v r2 frame;
          (sl1, r4) \<leftarrow> gif_buf_read1 r3;
          Some (0, gif1\<lparr>processed_first_frame := True\<rparr>, r4, frame1) }"

definition read_image ::
  "nat \<Rightarrow> gd_GIF \<Rightarrow> reader \<Rightarrow> 8 word list \<Rightarrow> (int \<times> gd_GIF \<times> reader \<times> 8 word list) option" where
  "read_image n gif r frame =
     do { (x, r) \<leftarrow> gif_buf_read16 r;
          (y, r) \<leftarrow> gif_buf_read16 r;
          (w, r) \<leftarrow> gif_buf_read16 r;
          (h, r) \<leftarrow> gif_buf_read16 r;
          (fisrz, r) \<leftarrow> gif_buf_read1 r;
          let gif = gif\<lparr>fx := x, fy := y, fw := w, fh := h\<rparr>;
          let interlace = uint (fisrz AND 0x40);
          (gif, r) \<leftarrow> (if fisrz AND 0x80 \<noteq> 0
                       then do { (pal, r) \<leftarrow> read_palette r (lct gif) (2 ^ (unat (fisrz AND 0x07) + 1));
                                 Some (gif\<lparr>lct := pal, palette := Lct\<rparr>, r) }
                       else Some (gif\<lparr>palette := Gct\<rparr>, r));
          read_image_data n gif interlace r frame }"


section \<open>Notions used in the proofs\<close>

definition readable :: "nat \<Rightarrow> reader \<Rightarrow> bool" where
  "readable c r \<longleftrightarrow>
     length (gif_buf r) = GIF_BUF_SIZE \<and>
     (gif_buf_idx r = gif_buf_last_idx r \<or> (0 \<le> gif_buf_idx r \<and> gif_buf_idx r \<le> int c))"

definition buffered :: "reader \<Rightarrow> nat" where
  "buffered r = nat (gif_buf_last_idx r - gif_buf_idx r)"

definition reader_ok :: "reader \<Rightarrow> bool" where
  "reader_ok r \<longleftrightarrow>
     0 \<le> gif_buf_idx r \<and> gif_buf_idx r \<le> gif_buf_last_idx r \<and>
     gif_buf_last_idx r \<le> int GIF_BUF_SIZE \<and> nat (gif_buf_last_idx r) \<le> length (gif_buf r) \<and>
     buffered r \<le> fpos (fd r) \<and> fpos (fd r) \<le> length (fdata (fd r)) \<and>
     drop (nat (gif_buf_idx r)) (take (nat (gif_buf_last_idx r)) (gif_buf r))
       = take (buffered r) (drop (fpos (fd r) - buffered r) (fdata (fd r)))"

definition ahead :: "reader \<Rightarrow> 8 word list" where
  "ahead r = drop (fpos (fd r) - buffered r) (fdata (fd r))"

text \<open>The signature \<^verbatim>\<open>GIF89a\<close>.\<close>

definition gif89a :: "8 word list" where
  "gif89a = [0x47, 0x49, 0x46, 0x38, 0x39, 0x61]"

definition table_ok :: "gd_Table \<Rightarrow> bool" where
  "table_ok t \<longleftrightarrow> (\<forall>k e. entries t k = Some e \<longrightarrow> 1 \<le> len e)"





definition past_end :: "reader \<Rightarrow> bool" where
  "past_end r \<longleftrightarrow> gif_buf_last_idx r < gif_buf_idx r"

definition same_stream :: "reader \<Rightarrow> reader \<Rightarrow> bool" where
  "same_stream r r2 \<longleftrightarrow> reader_ok r \<and> reader_ok r2 \<and> ahead r = ahead r2"

definition fetch_byte :: "nat \<Rightarrow> 8 word \<Rightarrow> 8 word \<Rightarrow> reader \<Rightarrow> (8 word \<times> 8 word \<times> reader) option" where
  "fetch_byte rpad sl b r =
     (if rpad = 0
      then do { (sl1, r1) \<leftarrow> (if sl = 0 then gif_buf_read1 r else Some (sl, r));
                (b1, r2) \<leftarrow> gif_buf_read1 r1;
                Some (sl1 - 1, b1, r2) }
      else Some (sl, b, r))"

definition tables_agree :: "gd_Table \<Rightarrow> gd_Table \<Rightarrow> bool" where
  "tables_agree t t2 \<longleftrightarrow>
     nentries t = nentries t2 \<and> (\<forall>k e. entries t k = Some e \<longrightarrow> entries t2 k = Some e)"

definition twin :: "gd_GIF \<Rightarrow> gd_GIF \<Rightarrow> bool" where
  "twin g g2 \<longleftrightarrow>
     fx g2 = fx g \<and> fy g2 = fy g \<and> fw g2 = fw g \<and> fh g2 = fh g \<and> width g2 = width g \<and>
     gce g2 = gce g \<and> \<not> processed_first_frame g \<and> processed_first_frame g2 \<and>
     tables_agree (table g) (table g2)"

definition replayed ::
  "8 word \<Rightarrow> 8 word list \<Rightarrow> 8 word list \<Rightarrow> 8 word list \<Rightarrow> 8 word list \<Rightarrow> bool" where
  "replayed t c1 c2 f1 f2 \<longleftrightarrow>
     length f1 = length c1 \<and> length f2 = length c1 \<and> length c2 = length c1 \<and>
     (\<forall>i < length c1.
        (f1 ! i \<noteq> c1 ! i \<and> f1 ! i \<noteq> t \<longrightarrow> f2 ! i = f1 ! i) \<and>
        (f2 ! i = f1 ! i \<or> f2 ! i = c2 ! i \<or> f1 ! i = t))"

definition replays :: "gd_GIF \<Rightarrow> gd_GIF \<Rightarrow> bool" where
  "replays g g2 \<longleftrightarrow>
     width g2 = width g \<and> gce g2 = gce g \<and> \<not> processed_first_frame g \<and> processed_first_frame g2 \<and>
     length (colors (lct g2)) = length (colors (lct g)) \<and>
     (\<forall>j e. entries (table g) j = Some e \<longrightarrow> entries (table g2) j = Some e)"

text \<open>
  The offset of the first block of a file: the signature, the logical screen descriptor
  and the global colour table come before it.
\<close>

definition first_block :: "8 word list \<Rightarrow> nat" where
  "first_block bs = 13 + 3 * 2 ^ (unat (bs ! 10 AND 0x07) + 1)"

section \<open>Concrete inputs\<close>

text \<open>A reader on a file of two colour triples, black and white, before and after they are read.\<close>

definition pal_reader :: reader where
  "pal_reader =
     \<lparr>fd = \<lparr>fdata = [0, 0, 0, 0xFF, 0xFF, 0xFF], fpos = 0\<rparr>, gif_buf = replicate 1024 0,
      gif_buf_last_idx = 0, gif_buf_idx = 0, file_pos = 0\<rparr>"

definition pal_reader_done :: reader where
  "pal_reader_done =
     \<lparr>fd = \<lparr>fdata = [0, 0, 0, 0xFF, 0xFF, 0xFF], fpos = 6\<rparr>,
      gif_buf = [0, 0, 0, 0xFF, 0xFF, 0xFF] @ replicate 1018 0,
      gif_buf_last_idx = 6, gif_buf_idx = 6, file_pos = 6\<rparr>"

text \<open>
  A file of 1100 bytes, and the reader after 1019 of them have been read one by one:
  the buffer holds the first 1024 bytes, of which five are still unread.
\<close>

definition seek_file :: "8 word list" where
  "seek_file = replicate 1022 0 @ 0xAA # replicate 4 0 @ 0xBB # replicate 72 0"

definition seek_reader :: reader where
  "seek_reader =
     \<lparr>fd = \<lparr>fdata = seek_file, fpos = 1024\<rparr>, gif_buf = take 1024 seek_file,
      gif_buf_last_idx = 1024, gif_buf_idx = 1019, file_pos = 1019\<rparr>"

text \<open>
  The file of the end-to-end scenario: a canvas of 2 by 2, a global table of black and
  white, one image block with the pixels 0, 1, 1, 0 (codes clear, 0, 1, 1, 0, stop at a
  minimum code size of 2) and the trailer.
\<close>

definition tiny_gif :: "8 word list" where
  "tiny_gif =
     [0x47, 0x49, 0x46, 0x38, 0x39, 0x61, 2, 0, 2, 0, 0x80, 0, 0, 0, 0, 0, 0xFF, 0xFF, 0xFF,
      0x2C, 0, 0, 0, 0, 2, 0, 2, 0, 0, 2, 3, 0x44, 0x02, 0x05, 0, 0x3B]"

text \<open>The reader of a \<^verbatim>\<open>GifClass\<close> object never used before, given a file.\<close>

definition fresh_reader :: "8 word list \<Rightarrow> reader" where
  "fresh_reader bs =
     \<lparr>fd = \<lparr>fdata = bs, fpos = 0\<rparr>, gif_buf = replicate 1024 0,
      gif_buf_last_idx = 0, gif_buf_idx = 0, file_pos = 0\<rparr>"

text \<open>
  The reader of an object that has played the file above to its end, given an empty
  file: the buffer still holds the 36 bytes of the earlier file.
\<close>

definition stale_reader :: reader where
  "stale_reader =
     \<lparr>fd = \<lparr>fdata = [], fpos = 0\<rparr>, gif_buf = tiny_gif @ replicate 988 0,
      gif_buf_last_idx = 36, gif_buf_idx = 36, file_pos = 36\<rparr>"










section \<open>The colour conversion\<close>

lemma mask_0xF8_word32: "(0xF8 :: 32 word) = push_bit 3 (mask 5)"
  by (simp add: mask_eq_exp_minus_1)

lemma mask_0xFC_word32: "(0xFC :: 32 word) = push_bit 2 (mask 6)"
  by (simp add: mask_eq_exp_minus_1)

lemma mask_0xF8_word8: "(0xF8 :: 8 word) = push_bit 3 (mask 5)"
  by (simp add: mask_eq_exp_minus_1)

lemma mask_0xFC_word8: "(0xFC :: 8 word) = push_bit 2 (mask 6)"
  by (simp add: mask_eq_exp_minus_1)

lemma narrow_or: "(ucast ((a :: 32 word) OR b) :: 16 word) = ucast a OR ucast b"
  by (rule bit_word_eqI) (simp add: bit_simps)

lemma red_bits:
  "(ucast (push_bit 8 ((ucast (c :: 8 word) :: 32 word) AND 0xF8)) :: 16 word)
   = push_bit 8 (ucast (c AND 0xF8))"
  unfolding mask_0xF8_word32 mask_0xF8_word8
  by (rule bit_word_eqI) (auto simp add: bit_simps)

lemma green_bits:
  "(ucast (push_bit 3 ((ucast (c :: 8 word) :: 32 word) AND 0xFC)) :: 16 word)
   = push_bit 3 (ucast (c AND 0xFC))"
  unfolding mask_0xFC_word32 mask_0xFC_word8
  by (rule bit_word_eqI) (auto simp add: bit_simps)

lemma blue_bits:
  "(ucast (drop_bit 3 ((ucast (c :: 8 word) :: 32 word) AND 0xF8)) :: 16 word)
   = drop_bit 3 (ucast (c AND 0xF8))"
  unfolding mask_0xF8_word32 mask_0xF8_word8
  by (rule bit_word_eqI) (auto simp add: bit_simps)

lemma rgb_store_eq_spec: "rgb_store cr cg cb = rgb565_spec cr cg cb"
  unfolding rgb_store_def rgb565_spec_def
  by (simp only: narrow_or red_bits green_bits blue_bits)

lemma gif_buf_read_three:
  "gif_buf_read r (Suc (Suc (Suc m))) =
     do { (a, r1) \<leftarrow> gif_buf_read1 r;
          (b, r2) \<leftarrow> gif_buf_read1 r1;
          (c, r3) \<leftarrow> gif_buf_read1 r2;
          (bs, r4) \<leftarrow> gif_buf_read r3 m;
          Some (a # b # c # bs, r4) }"
  by (simp split: Option.bind_split prod.splits)

text \<open>The loop of \<^verbatim>\<open>read_palette\<close> reads \<open>3 * k\<close> bytes and stores one colour for each triple.\<close>

lemma read_palette_loop_eq:
  "read_palette_loop r dest i k =
     do { (bs, r') \<leftarrow> gif_buf_read r (3 * k);
          if k = 0 \<or> i + k \<le> length (colors dest)
          then Some (dest\<lparr>colors := take i (colors dest)
                       @ map (\<lambda>(a, b, c). rgb_store a b c) (triples bs)
                       @ drop (i + k) (colors dest)\<rparr>, r')
          else None }"
proof (induction k arbitrary: r dest i)
  case 0
  show ?case by simp
next
  case (Suc k)
  have three: "3 * Suc k = Suc (Suc (Suc (3 * k)))" by simp
  show ?case
    unfolding three gif_buf_read_three read_palette_loop.simps Suc.IH
    by (auto split: Option.bind_split prod.splits
        simp: take_Suc_conv_app_nth upd_conv_take_nth_drop add.commute)
qed

text \<open>
  C9. Whenever the reader delivers the \<open>3 * n\<close> bytes of a colour table,
  \<^verbatim>\<open>read_palette\<close> (called for the global and for a local table alike) stores for
  each triple \<open>(r, g, b)\<close> exactly
  \<open>((r & 0xF8) << 8) | ((g & 0xFC) << 3) | ((b & 0xF8) >> 3)\<close> in 16 bits, in the order
  of the triples, and leaves the other entries alone; the value computed in
  \<^verbatim>\<open>int\<close> by the code is that 16-bit value for every triple; black gives
  \<open>0x0000\<close> and white \<open>0xFFFF\<close>.
\<close>

theorem read_palette_rgb565:
  "(gif_buf_read r (3 * n) = Some (bs, r') \<and> n \<le> length (colors dest) \<longrightarrow>
      read_palette r dest n =
        Some (dest\<lparr>pal_len := int n,
                    colors := map (\<lambda>(cr, cg, cb). rgb565_spec cr cg cb) (triples bs)
                              @ drop n (colors dest)\<rparr>, r'))
   \<and> rgb_store cr cg cb = rgb565_spec cr cg cb
   \<and> rgb_store 0 0 0 = 0x0000 \<and> rgb_store 0xFF 0xFF 0xFF = 0xFFFF"
proof (intro conjI impI)
  assume h: "gif_buf_read r (3 * n) = Some (bs, r') \<and> n \<le> length (colors dest)"
  have "(\<lambda>(a, b, c). rgb_store a b c) = (\<lambda>(cr, cg, cb). rgb565_spec cr cg cb)"
    by (simp add: rgb_store_eq_spec)
  with h show "read_palette r dest n =
        Some (dest\<lparr>pal_len := int n,
                    colors := map (\<lambda>(cr, cg, cb). rgb565_spec cr cg cb) (triples bs)
                              @ drop n (colors dest)\<rparr>, r')"
    by (simp add: read_palette_def read_palette_loop_eq)
next
  show "rgb_store cr cg cb = rgb565_spec cr cg cb"
    by (rule rgb_store_eq_spec)
next
  show "rgb_store 0 0 0 = 0x0000"
    by (simp add: rgb_store_def)
next
  show "rgb_store 0xFF 0xFF 0xFF = 0xFFFF"
    by (simp add: rgb_store_def)
qed

lemma pal_reader_bytes:
  "gif_buf_read pal_reader 6 = Some ([0, 0, 0, 0xFF, 0xFF, 0xFF], pal_reader_done)"
  by code_simp

theorem read_palette_rgb565_witness:
  "gif_buf_read pal_reader (3 * 2) = Some ([0, 0, 0, 0xFF, 0xFF, 0xFF], pal_reader_done)
   \<and> 2 \<le> length (colors zero_palette)
   \<and> read_palette pal_reader zero_palette 2 =
       Some (\<lparr>pal_len = 2, colors = [0x0000, 0xFFFF] @ replicate 254 0\<rparr>, pal_reader_done)"
proof -
  have h: "gif_buf_read pal_reader (3 * 2) = Some ([0, 0, 0, 0xFF, 0xFF, 0xFF], pal_reader_done)
           \<and> 2 \<le> length (colors zero_palette)"
    using pal_reader_bytes by (simp add: zero_palette_def)
  have "read_palette pal_reader zero_palette 2 =
          Some (zero_palette\<lparr>pal_len := int 2,
                  colors := map (\<lambda>(cr, cg, cb). rgb565_spec cr cg cb)
                              (triples [0, 0, 0, 0xFF, 0xFF, 0xFF])
                            @ drop 2 (colors zero_palette)\<rparr>, pal_reader_done)"
    using read_palette_rgb565 [of pal_reader 2 "[0, 0, 0, 0xFF, 0xFF, 0xFF]" pal_reader_done zero_palette] h
    by blast
  then show ?thesis
    using h by (simp add: zero_palette_def rgb565_spec_def)
qed

section \<open>The reader as a stream of bytes\<close>

lemma gif_buf_fill_length:
  "length (gif_buf r) = GIF_BUF_SIZE \<Longrightarrow> length (gif_buf (gif_buf_fill r)) = GIF_BUF_SIZE"
  by (simp add: gif_buf_fill_def fd_read_def Let_def GIF_BUF_SIZE_def)

lemma gif_buf_fill_idx: "gif_buf_idx (gif_buf_fill r) = 0"
  by (simp add: gif_buf_fill_def fd_read_def Let_def)

lemma gif_buf_read1_readable:
  assumes "readable c r" and "c < GIF_BUF_SIZE"
  shows "\<exists>b r'. gif_buf_read1 r = Some (b, r') \<and> readable (Suc c) r'"
proof (cases "gif_buf_idx r = gif_buf_last_idx r")
  case True
  with assms show ?thesis
    by (simp add: gif_buf_read1_def readable_def gif_buf_fill_length gif_buf_fill_idx Let_def)
next
  case False
  with assms show ?thesis
    by (auto simp add: gif_buf_read1_def readable_def Let_def GIF_BUF_SIZE_def)
qed

lemma gif_buf_read_readable:
  "readable c r \<Longrightarrow> c + k \<le> GIF_BUF_SIZE \<Longrightarrow>
   \<exists>bs r'. gif_buf_read r k = Some (bs, r') \<and> readable (c + k) r'"
proof (induction k arbitrary: c r)
  case 0
  then show ?case by simp
next
  case (Suc k)
  from Suc.prems obtain b r1 where r1: "gif_buf_read1 r = Some (b, r1)" "readable (Suc c) r1"
    using gif_buf_read1_readable [of c r] by auto
  from Suc.IH [OF r1(2)] Suc.prems(2) obtain bs r2
    where "gif_buf_read r1 k = Some (bs, r2)" "readable (Suc c + k) r2" by auto
  with r1 show ?case by simp
qed

lemma gif_buf_read16_readable:
  assumes "readable c r" and "c + 2 \<le> GIF_BUF_SIZE"
  shows "\<exists>w r'. gif_buf_read16 r = Some (w, r') \<and> readable (c + 2) r'"
proof -
  from assms obtain b r1 where r1: "gif_buf_read1 r = Some (b, r1)" "readable (Suc c) r1"
    using gif_buf_read1_readable [of c r] by auto
  from assms r1 obtain b2 r2 where r2: "gif_buf_read1 r1 = Some (b2, r2)" "readable (Suc (Suc c)) r2"
    using gif_buf_read1_readable [of "Suc c" r1] by auto
  from r1 r2 show ?thesis by (simp add: gif_buf_read16_def)
qed

lemma read1_ahead_refill:
  assumes ok: "reader_ok r" and eq: "gif_buf_idx r = gif_buf_last_idx r" and ah: "ahead r = b # rest"
  shows "\<exists>r'. gif_buf_read1 r = Some (b, r') \<and> reader_ok r' \<and> ahead r' = rest
            \<and> fdata (fd r') = fdata (fd r)"
proof -
  define data where "data = fdata (fd r)"
  define p where "p = fpos (fd r)"
  define bs where "bs = take GIF_BUF_SIZE (drop p data)"
  have buf0: "buffered r = 0" using eq by (simp add: buffered_def)
  have dr: "drop p data = b # rest" using ah buf0 by (simp add: ahead_def data_def p_def)
  have bs_eq: "bs = b # take 1023 rest" by (simp add: bs_def dr GIF_BUF_SIZE_def)
  have lbs: "length bs \<le> 1024" "1 \<le> length bs" by (simp_all add: bs_def GIF_BUF_SIZE_def dr)
  have plen: "p + length bs \<le> length data"
    using ok by (auto simp add: bs_def reader_ok_def p_def data_def min_def)
  have fill: "gif_buf_fill r = r\<lparr>fd := (fd r)\<lparr>fpos := p + length bs\<rparr>,
        gif_buf := bs @ drop (length bs) (gif_buf r),
        gif_buf_last_idx := int (length bs), gif_buf_idx := 0\<rparr>"
    by (simp add: gif_buf_fill_def fd_read_def Let_def bs_def p_def data_def)
  let ?r' = "(gif_buf_fill r)\<lparr>gif_buf_idx := 1, file_pos := file_pos (gif_buf_fill r) + 1\<rparr>"
  have rd: "gif_buf_read1 r = Some (b, ?r')"
    using eq lbs by (simp add: gif_buf_read1_def Let_def fill GIF_BUF_SIZE_def bs_eq)
  have d1: "drop (Suc 0) bs = take (length bs - Suc 0) (drop (Suc p) data)"
  proof -
    have "drop (Suc p) data = rest" using dr by (metis drop_Suc list.sel(3) tl_drop)
    then show ?thesis by (auto simp add: bs_eq min_def)
  qed
  have ok': "reader_ok ?r'"
    using lbs plen d1 by (simp add: reader_ok_def fill buffered_def GIF_BUF_SIZE_def data_def nat_diff_distrib)
  have ah': "ahead ?r' = rest"
  proof -
    have "drop (Suc p) data = rest" using dr by (metis drop_Suc list.sel(3) tl_drop)
    then show ?thesis using lbs by (simp add: ahead_def fill buffered_def data_def nat_diff_distrib)
  qed
  show ?thesis using rd ok' ah' by (intro exI [of _ ?r']) (simp add: fill)
qed

lemma read1_ahead_buffered:
  assumes ok: "reader_ok r" and ne: "gif_buf_idx r \<noteq> gif_buf_last_idx r" and ah: "ahead r = b # rest"
  shows "\<exists>r'. gif_buf_read1 r = Some (b, r') \<and> reader_ok r' \<and> ahead r' = rest
            \<and> fdata (fd r') = fdata (fd r)"
proof -
  define i where "i = nat (gif_buf_idx r)"
  define l where "l = nat (gif_buf_last_idx r)"
  define k where "k = buffered r"
  define q where "q = fpos (fd r) - k"
  have il: "i < l" "gif_buf_idx r = int i" "gif_buf_last_idx r = int l" "l \<le> 1024" "l \<le> length (gif_buf r)"
    using ok ne by (auto simp add: reader_ok_def i_def l_def GIF_BUF_SIZE_def)
  have k: "k = l - i" "k \<le> fpos (fd r)"
    using ok il by (auto simp add: k_def buffered_def reader_ok_def)
  have dq: "drop q (fdata (fd r)) = b # rest"
    using ah by (simp add: ahead_def q_def k_def)
  have seg: "drop i (take l (gif_buf r)) = take k (b # rest)"
    using ok dq by (simp add: reader_ok_def i_def l_def k_def q_def)
  have k1: "k = Suc (k - 1)" using k il by simp
  have seg': "drop i (take l (gif_buf r)) = b # take (k - 1) rest"
    using seg by (subst (asm) k1) simp
  have nth: "gif_buf r ! i = b"
  proof -
    have "take l (gif_buf r) ! i = b" using seg' by (rule nth_via_drop)
    then show ?thesis using il by simp
  qed
  let ?r' = "r\<lparr>gif_buf_idx := int i + 1, file_pos := file_pos r + 1\<rparr>"
  have rd: "gif_buf_read1 r = Some (b, ?r')"
    using ne il nth by (simp add: gif_buf_read1_def Let_def GIF_BUF_SIZE_def)
  have tl: "drop (Suc i) (take l (gif_buf r)) = take (k - 1) rest"
    using seg' by (metis drop_Suc list.sel(3) tl_drop)
  have dq': "drop (Suc q) (fdata (fd r)) = rest"
    using dq by (metis drop_Suc list.sel(3) tl_drop)
  have q': "fpos (fd r) - (k - 1) = Suc q"
    using k il by (simp add: q_def)
  have b': "buffered ?r' = k - 1"
    using il k by (simp add: buffered_def)
  have ok': "reader_ok ?r'"
    using ok il k tl dq' q' b'
    by (simp add: reader_ok_def nat_add_distrib)
  have ah': "ahead ?r' = rest"
    using dq' q' b' by (simp add: ahead_def)
  show ?thesis using rd ok' ah' by (intro exI [of _ ?r']) simp
qed

lemma read1_ahead:
  assumes "reader_ok r" and "ahead r = b # rest"
  shows "\<exists>r'. gif_buf_read1 r = Some (b, r') \<and> reader_ok r' \<and> ahead r' = rest
            \<and> fdata (fd r') = fdata (fd r)"
  using assms read1_ahead_refill read1_ahead_buffered by blast

lemma read_ahead:
  "reader_ok r \<Longrightarrow> k \<le> length (ahead r) \<Longrightarrow>
   \<exists>r'. gif_buf_read r k = Some (take k (ahead r), r') \<and> reader_ok r'
        \<and> ahead r' = drop k (ahead r) \<and> fdata (fd r') = fdata (fd r)"
proof (induction k arbitrary: r)
  case 0
  then show ?case by simp
next
  case (Suc k)
  then obtain b rest where br: "ahead r = b # rest" by (cases "ahead r") auto
  with Suc.prems obtain r1 where r1: "gif_buf_read1 r = Some (b, r1)" "reader_ok r1"
      "ahead r1 = rest" "fdata (fd r1) = fdata (fd r)"
    using read1_ahead by blast
  from Suc.prems br r1 have "k \<le> length (ahead r1)" by simp
  from Suc.IH [OF r1(2) this] obtain r2 where
    "gif_buf_read r1 k = Some (take k (ahead r1), r2)" "reader_ok r2"
    "ahead r2 = drop k (ahead r1)" "fdata (fd r2) = fdata (fd r1)" by blast
  with r1 br show ?case by simp
qed

lemma read16_ahead:
  assumes "reader_ok r" and "ahead r = lo # hi # rest"
  shows "\<exists>r'. gif_buf_read16 r = Some (ucast lo + push_bit 8 (ucast hi), r') \<and> reader_ok r'
            \<and> ahead r' = rest \<and> fdata (fd r') = fdata (fd r)"
proof -
  from assms obtain r1 where r1: "gif_buf_read1 r = Some (lo, r1)" "reader_ok r1"
      "ahead r1 = hi # rest" "fdata (fd r1) = fdata (fd r)"
    using read1_ahead by blast
  then obtain r2 where r2: "gif_buf_read1 r1 = Some (hi, r2)" "reader_ok r2"
      "ahead r2 = rest" "fdata (fd r2) = fdata (fd r1)"
    using read1_ahead by blast
  from r1 r2 show ?thesis by (simp add: gif_buf_read16_def)
qed

lemma read_palette_readable:
  assumes "readable c r" and "c + 3 * k \<le> GIF_BUF_SIZE" and "k \<le> length (colors dest)"
  shows "\<exists>pal r'. read_palette r dest k = Some (pal, r')"
proof -
  from assms obtain bs r' where "gif_buf_read r (3 * k) = Some (bs, r')"
    using gif_buf_read_readable [of c r "3 * k"] by blast
  with assms(3) show ?thesis by (simp add: read_palette_def read_palette_loop_eq)
qed

lemma gct_size_le: "(2::nat) ^ (unat ((b :: 8 word) AND 0x07) + 1) \<le> 256"
proof -
  have "unat (b AND 0x07) \<le> unat (0x07 :: 8 word)"
    by (rule word_and_le1 [THEN word_le_nat_alt [THEN iffD1]])
  then have "unat (b AND 0x07) + 1 \<le> 8" by simp
  then have "(2::nat) ^ (unat (b AND 0x07) + 1) \<le> 2 ^ 8"
    by (rule power_increasing) simp
  then show ?thesis by simp
qed

section \<open>Invariants of the decoding loop\<close>

lemma put_pixel_table [simp]: "put_pixel (gif\<lparr>table := t\<rparr>) = put_pixel gif"
  by (intro ext) (simp add: put_pixel_def cong: if_cong)

lemma lookup_entry_ok: "table_ok t \<Longrightarrow> lookup_entry t k = Some e \<Longrightarrow> 1 \<le> len e"
  by (auto simp add: table_ok_def lookup_entry_def split: if_splits)

lemma emit_loop_inv:
  assumes "emit_loop n gif il ti off e frame = Some (e', frame')"
    and "P frame" and "c \<longrightarrow> 1 \<le> len e" and "c \<longrightarrow> table_ok (table gif)"
    and step: "\<And>e f f'. (c \<longrightarrow> 1 \<le> len e) \<Longrightarrow> P f \<Longrightarrow> put_pixel gif il ti off e f = Some f' \<Longrightarrow> P f'"
  shows "P frame'"
  using assms(1-4)
proof (induction n arbitrary: e frame)
  case 0
  then show ?case by simp
next
  case (Suc n)
  from Suc.prems(1) obtain f1 where f1: "put_pixel gif il ti off e frame = Some f1"
    by (auto split: Option.bind_splits)
  have P1: "P f1" using step [OF Suc.prems(3) Suc.prems(2) f1] .
  show ?case
  proof (cases "prefix e = 0xFFF")
    case True
    with Suc.prems(1) f1 P1 show ?thesis by simp
  next
    case False
    with Suc.prems(1) f1 obtain e1 where e1: "lookup_entry (table gif) (uint (prefix e)) = Some e1"
      "emit_loop n gif il ti off e1 f1 = Some (e', frame')"
      by (auto split: Option.bind_splits)
    have "c \<longrightarrow> 1 \<le> len e1" using e1(1) Suc.prems(4) lookup_entry_ok by blast
    from Suc.IH [OF e1(2) P1 this Suc.prems(4)] show ?thesis .
  qed
qed

lemma add_entry_ok:
  "add_entry t l p s = Some (rt, t') \<Longrightarrow> table_ok t \<Longrightarrow> 1 \<le> l \<Longrightarrow> table_ok t'"
  by (auto simp add: add_entry_def table_ok_def Let_def split: if_splits)

lemma patch_suffix_ok: "patch_suffix t s = Some t' \<Longrightarrow> table_ok t \<Longrightarrow> table_ok t'"
  by (auto simp add: patch_suffix_def table_ok_def Let_def split: if_splits option.splits)

lemma reset_loop_ok:
  "reset_loop es k c = Some es' \<Longrightarrow> (\<forall>j e. es j = Some e \<longrightarrow> 1 \<le> len e)
   \<Longrightarrow> (\<forall>j e. es' j = Some e \<longrightarrow> 1 \<le> len e)"
proof (induction c arbitrary: es k)
  case 0
  then show ?case by simp
next
  case (Suc c)
  from Suc.prems(1) have lt: "k < 4096" and
    rec: "reset_loop (es(k \<mapsto> \<lparr>len = 1, prefix = 0xFFF, suffix = of_nat k\<rparr>)) (Suc k) c = Some es'"
    by (auto split: if_splits)
  show ?case
    by (rule Suc.IH [OF rec]) (use Suc.prems(2) in auto)
qed

lemma reset_table_ok: "reset_table t ks = Some t' \<Longrightarrow> table_ok t \<Longrightarrow> table_ok t'"
  unfolding reset_table_def table_ok_def
  by (auto split: if_splits Option.bind_splits dest: reset_loop_ok)

lemma loop_head_inv:
  assumes "loop_head gif v = Some (gif', v')" and "c \<longrightarrow> table_ok (table gif)"
    and "c \<longrightarrow> 0 \<le> str_len v"
  shows "(c \<longrightarrow> table_ok (table gif')) \<and> gif' = gif\<lparr>table := table gif'\<rparr>
         \<and> str_len v' = str_len v \<and> frm_off v' = frm_off v"
  using assms
  by (auto simp add: loop_head_def table_ok_def add_entry_def Let_def
      split: if_splits Option.bind_splits)

lemma loop_body_cases:
  assumes "loop_body n il gif v r frame = Some (go, gif', v', r', frame')"
  obtains
    (code) gif1 v1 k sl sh b where
      "loop_head gif v = Some (gif1, v1)"
      "get_key (key_size v1) (sub_len v1) (shift v1) (byte v1) r = Some (k, sl, sh, b, r')"
      "k = clear v1 \<or> k = stop v1" "go = (k = clear v1)" "gif' = gif1"
      "v' = v1\<lparr>key := k, sub_len := sl, shift := sh, byte := b\<rparr>" "frame' = frame"
  | (string) gif1 v1 k sl sh b e e1 where
      "loop_head gif v = Some (gif1, v1)"
      "get_key (key_size v1) (sub_len v1) (shift v1) (byte v1) r = Some (k, sl, sh, b, r')"
      "k \<noteq> clear v1" "k \<noteq> stop v1" "go"
      "lookup_entry (table gif1) (uint k) = Some e"
      "emit_loop n gif1 il (tindex (gce gif1)) (frm_off v1) e frame = Some (e1, frame')"
      "in_int32 (frm_off v1 + len e)"
      "v' = v1\<lparr>key := k, sub_len := sl, shift := sh, byte := b,
               key_size := (if ret v1 = 1 then key_size v1 + 1 else key_size v1),
               entry := e1, str_len := len e, frm_off := frm_off v1 + len e\<rparr>"
      "if uint k < nentries (table gif1) - 1 \<and> \<not> table_is_full v1
       then \<exists>t. patch_suffix (table gif1) (suffix e1) = Some t \<and> gif' = gif1\<lparr>table := t\<rparr>
       else gif' = gif1"
proof -
  from assms obtain gif1 v1 where h: "loop_head gif v = Some (gif1, v1)"
    by (auto simp add: loop_body_def split: Option.bind_splits)
  from assms h obtain k sl sh b r1 where
    g: "get_key (key_size v1) (sub_len v1) (shift v1) (byte v1) r = Some (k, sl, sh, b, r1)"
    by (auto simp add: loop_body_def split: Option.bind_splits)
  define v2 where "v2 = v1\<lparr>key := k, sub_len := sl, shift := sh, byte := b\<rparr>"
  show thesis
  proof (cases "k = clear v1 \<or> k = stop v1")
    case True
    with assms h g show ?thesis
      by (intro code [of gif1 v1 k sl sh b]) (auto simp add: loop_body_def Let_def split: if_splits)
  next
    case False
    with assms h g obtain e where e: "lookup_entry (table gif1) (uint k) = Some e"
      by (auto simp add: loop_body_def Let_def split: Option.bind_splits)
    from False assms h g e obtain e1 f1 where
      em: "emit_loop n gif1 il (tindex (gce gif1)) (frm_off v1) e frame = Some (e1, f1)"
      by (auto simp add: loop_body_def Let_def split: Option.bind_splits if_splits)
    from False assms h g e em show ?thesis
      by (intro string [of gif1 v1 k sl sh b e e1])
        (auto simp add: loop_body_def Let_def split: Option.bind_splits if_splits)
  qed
qed


lemma loop_body_inv:
  assumes run: "loop_body n il gif v r frame = Some (go, gif', v', r', frame')"
    and t: "c \<longrightarrow> table_ok (table gif)" and s: "c \<longrightarrow> 0 \<le> str_len v"
    and o: "c \<longrightarrow> 0 \<le> frm_off v" and P: "P frame"
    and step: "\<And>off e f f'. (c \<longrightarrow> 0 \<le> off \<and> 1 \<le> len e) \<Longrightarrow> P f
                 \<Longrightarrow> put_pixel gif il (tindex (gce gif)) off e f = Some f' \<Longrightarrow> P f'"
  shows "P frame' \<and> (c \<longrightarrow> table_ok (table gif')) \<and> (c \<longrightarrow> 0 \<le> str_len v')
         \<and> (c \<longrightarrow> 0 \<le> frm_off v') \<and> gif' = gif\<lparr>table := table gif'\<rparr>"
  using run
proof (cases rule: loop_body_cases)
  case (code gif1 v1 k sl sh b)
  from loop_head_inv [OF code(1) t s] code P o s show ?thesis by simp
next
  case (string gif1 v1 k sl sh b e e1)
  note h = loop_head_inv [OF string(1) t s]
  from h have g1: "gif1 = gif\<lparr>table := table gif1\<rparr>" by simp
  have pp: "put_pixel gif1 = put_pixel gif" by (subst g1) simp
  have gc: "gce gif1 = gce gif" by (subst g1) simp
  have e_ok: "c \<longrightarrow> 1 \<le> len e"
    using h string(6) lookup_entry_ok by blast
  have off_ok: "c \<longrightarrow> 0 \<le> frm_off v1" using h o by simp
  have Pf: "P frame'"
  proof (rule emit_loop_inv [where P = P and c = c, OF string(7) P])
    show "c \<longrightarrow> 1 \<le> len e" by (rule e_ok)
    show "c \<longrightarrow> table_ok (table gif1)" using h by simp
    fix e' f f'
    assume "c \<longrightarrow> 1 \<le> len e'" "P f"
      "put_pixel gif1 il (tindex (gce gif1)) (frm_off v1) e' f = Some f'"
    then show "P f'" using step [of "frm_off v1" e' f f'] off_ok by (simp add: pp gc)
  qed
  have tab: "(c \<longrightarrow> table_ok (table gif')) \<and> gif' = gif\<lparr>table := table gif'\<rparr>"
  proof (cases "uint k < nentries (table gif1) - 1 \<and> \<not> table_is_full v1")
    case True
    with string(10) obtain t' where t': "patch_suffix (table gif1) (suffix e1) = Some t'"
      "gif' = gif1\<lparr>table := t'\<rparr>" by auto
    from t'(2) g1 have "gif' = gif\<lparr>table := table gif'\<rparr>"
      by (metis gd_GIF.select_convs(15) gd_GIF.surjective gd_GIF.update_convs(15))
    moreover have "c \<longrightarrow> table_ok (table gif')"
      using patch_suffix_ok [OF t'(1)] h t'(2) by simp
    ultimately show ?thesis by simp
  next
    case False
    with string(10) have "gif' = gif1" by simp
    with h show ?thesis by simp
  qed
  from e_ok off_ok have "(c \<longrightarrow> 0 \<le> str_len v') \<and> (c \<longrightarrow> 0 \<le> frm_off v')"
    by (auto simp add: string(9))
  with Pf tab show ?thesis by simp
qed

lemma read_image_loop_inv:
  assumes "read_image_loop n il gif v r frame = Some (gif', v', r', frame')"
    and "c \<longrightarrow> table_ok (table gif)" and "c \<longrightarrow> 0 \<le> str_len v"
    and "c \<longrightarrow> 0 \<le> frm_off v" and "P frame"
    and step: "\<And>off e f f'. (c \<longrightarrow> 0 \<le> off \<and> 1 \<le> len e) \<Longrightarrow> P f
                 \<Longrightarrow> put_pixel gif il (tindex (gce gif)) off e f = Some f' \<Longrightarrow> P f'"
  shows "P frame' \<and> (c \<longrightarrow> table_ok (table gif')) \<and> gif' = gif\<lparr>table := table gif'\<rparr>"
  using assms
proof (induction n arbitrary: gif v r frame)
  case 0
  then show ?case by simp
next
  case (Suc n)
  from Suc.prems(1) obtain go gif1 v1 r1 frame1 where
    b: "loop_body n il gif v r frame = Some (go, gif1, v1, r1, frame1)"
    by (auto split: option.splits)
  have inv: "P frame1 \<and> (c \<longrightarrow> table_ok (table gif1)) \<and> (c \<longrightarrow> 0 \<le> str_len v1)
         \<and> (c \<longrightarrow> 0 \<le> frm_off v1) \<and> gif1 = gif\<lparr>table := table gif1\<rparr>"
    by (rule loop_body_inv [where P = P and c = c, OF b Suc.prems(2-5)])
      (use Suc.prems(6) in blast)
  then have g1: "gif1 = gif\<lparr>table := table gif1\<rparr>" by simp
  have pp: "put_pixel gif1 = put_pixel gif" by (subst g1) simp
  have gc: "gce gif1 = gce gif" by (subst g1) simp
  show ?case
  proof (cases go)
    case False
    with Suc.prems(1) b inv show ?thesis by simp
  next
    case True
    with Suc.prems(1) b have rec: "read_image_loop n il gif1 v1 r1 frame1 = Some (gif', v', r', frame')"
      by simp
    have "P frame' \<and> (c \<longrightarrow> table_ok (table gif')) \<and> gif' = gif1\<lparr>table := table gif'\<rparr>"
    proof (rule Suc.IH [where gif = gif1, OF rec])
      show "c \<longrightarrow> table_ok (table gif1)" "c \<longrightarrow> 0 \<le> str_len v1" "c \<longrightarrow> 0 \<le> frm_off v1" "P frame1"
        using inv by simp_all
      fix off e f f'
      assume "c \<longrightarrow> 0 \<le> off \<and> 1 \<le> len e" "P f"
        "put_pixel gif1 il (tindex (gce gif1)) off e f = Some f'"
      then show "P f'" using Suc.prems(6) [of off e f f'] by (simp add: pp gc)
    qed
    moreover from this g1 have "gif' = gif\<lparr>table := table gif'\<rparr>"
      by (metis gd_GIF.select_convs(15) gd_GIF.surjective gd_GIF.update_convs(15))
    ultimately show ?thesis by simp
  qed
qed

lemma read_image_data_cases:
  assumes "read_image_data n gif il r frame = Some (res, gif', r', frame')"
  obtains b r1 t k sl sh b1 r2 gif1 v1 r3 sl1 where
    "gif_buf_read1 r = Some (b, r1)"
    "reset_table (table gif) (unat b) = Some t"
    "get_key (unat b + 1) 0 0 b r1 = Some (k, sl, sh, b1, r2)"
    "read_image_loop n il (gif\<lparr>table := t\<rparr>)
       \<lparr>sub_len = sl, shift = sh, byte = b1, table_is_full = False,
        init_key_size = unat b + 1, key_size = unat b + 1, frm_off = 0, str_len = 0,
        key = k, clear = push_bit (unat b) 1, stop = push_bit (unat b) 1 + 1, ret = 0,
        entry = \<lparr>len = 0, prefix = 0, suffix = 0\<rparr>\<rparr> r2 frame = Some (gif1, v1, r3, frame')"
    "gif_buf_read1 r3 = Some (sl1, r')" "res = 0"
    "gif' = gif1\<lparr>processed_first_frame := True\<rparr>"
  using assms
  by (auto simp add: read_image_data_def Let_def split: Option.bind_splits)

lemma read_image_data_inv:
  assumes run: "read_image_data n gif il r frame = Some (res, gif', r', frame')"
    and t: "c \<longrightarrow> table_ok (table gif)" and P: "P frame"
    and step: "\<And>off e f f'. (c \<longrightarrow> 0 \<le> off \<and> 1 \<le> len e) \<Longrightarrow> P f
                 \<Longrightarrow> put_pixel gif il (tindex (gce gif)) off e f = Some f' \<Longrightarrow> P f'"
  shows "P frame' \<and> (c \<longrightarrow> table_ok (table gif')) \<and> res = 0
         \<and> gif' = gif\<lparr>table := table gif', processed_first_frame := True\<rparr>"
  using run
proof (cases rule: read_image_data_cases)
  case (1 b r1 t0 k sl sh b1 r2 gif1 v1 r3 sl1)
  have "P frame' \<and> (c \<longrightarrow> table_ok (table gif1))
        \<and> gif1 = gif\<lparr>table := t0\<rparr>\<lparr>table := table gif1\<rparr>"
  proof (rule read_image_loop_inv [where P = P and c = c, OF 1(4)])
    show "c \<longrightarrow> table_ok (table (gif\<lparr>table := t0\<rparr>))"
      using t reset_table_ok [OF 1(2)] by simp
    show "P frame" by (rule P)
    fix off e f f'
    assume "c \<longrightarrow> 0 \<le> off \<and> 1 \<le> len e" "P f"
      "put_pixel (gif\<lparr>table := t0\<rparr>) il (tindex (gce (gif\<lparr>table := t0\<rparr>))) off e f = Some f'"
    then show "P f'" using step [of off e f f'] by simp
  qed simp_all
  with 1(6,7) show ?thesis by simp
qed










section \<open>Two readers on the same stream\<close>

lemma read1_past_end:
  "past_end r \<Longrightarrow> gif_buf_read1 r = Some (b, r') \<Longrightarrow> past_end r'"
  by (auto simp add: past_end_def gif_buf_read1_def Let_def split: if_splits)

lemma read1_at_end:
  assumes ok: "reader_ok r" and e: "ahead r = []" and rd: "gif_buf_read1 r = Some (b, r')"
  shows "past_end r'"
proof -
  have le: "buffered r \<le> fpos (fd r)" "fpos (fd r) \<le> length (fdata (fd r))"
    using ok by (simp_all add: reader_ok_def)
  from e have "length (fdata (fd r)) \<le> fpos (fd r) - buffered r"
    by (simp add: ahead_def)
  with le have b0: "buffered r = 0" and pe: "fpos (fd r) = length (fdata (fd r))"
    by auto
  from b0 ok have eq: "gif_buf_idx r = gif_buf_last_idx r"
    by (simp add: buffered_def reader_ok_def)
  have fill: "gif_buf_last_idx (gif_buf_fill r) = 0" "gif_buf_idx (gif_buf_fill r) = 0"
    using pe by (simp_all add: gif_buf_fill_def fd_read_def Let_def)
  from rd eq fill show ?thesis
    by (auto simp add: gif_buf_read1_def Let_def past_end_def split: if_splits)
qed

lemma read1_replay:
  assumes s: "same_stream r r2" and rd: "gif_buf_read1 r = Some (b, r')"
  shows "past_end r' \<or> (\<exists>r2'. gif_buf_read1 r2 = Some (b, r2') \<and> same_stream r' r2')"
proof (cases "ahead r")
  case Nil
  with s rd read1_at_end show ?thesis by (auto simp add: same_stream_def)
next
  case (Cons b0 rest)
  from s have ok: "reader_ok r" "reader_ok r2" "ahead r2 = b0 # rest"
    using Cons by (simp_all add: same_stream_def)
  from read1_ahead [OF ok(1) Cons] rd have a: "b = b0" "reader_ok r'" "ahead r' = rest"
    by auto
  from read1_ahead [OF ok(2,3)] obtain r2' where
    "gif_buf_read1 r2 = Some (b0, r2')" "reader_ok r2'" "ahead r2' = rest" by blast
  with a show ?thesis by (auto simp add: same_stream_def)
qed

lemma read_past_end:
  "past_end r \<Longrightarrow> gif_buf_read r k = Some (bs, r') \<Longrightarrow> past_end r'"
proof (induction k arbitrary: r bs)
  case 0
  then show ?case by simp
next
  case (Suc k)
  from Suc.prems(2) obtain b r1 bs1 where
    "gif_buf_read1 r = Some (b, r1)" "gif_buf_read r1 k = Some (bs1, r')"
    by (auto split: Option.bind_splits)
  with Suc.IH [of r1 bs1] read1_past_end [OF Suc.prems(1)] show ?case by blast
qed

lemma read_replay:
  "same_stream r r2 \<Longrightarrow> gif_buf_read r k = Some (bs, r') \<Longrightarrow>
   past_end r' \<or> (\<exists>r2'. gif_buf_read r2 k = Some (bs, r2') \<and> same_stream r' r2')"
proof (induction k arbitrary: r r2 bs)
  case 0
  then show ?case by simp
next
  case (Suc k)
  from Suc.prems(2) obtain b r1 bs1 where
    rd: "gif_buf_read1 r = Some (b, r1)" "gif_buf_read r1 k = Some (bs1, r')" "bs = b # bs1"
    by (auto split: Option.bind_splits)
  from read1_replay [OF Suc.prems(1) rd(1)] show ?case
  proof
    assume "past_end r1"
    with rd(2) read_past_end show ?thesis by blast
  next
    assume "\<exists>r2'. gif_buf_read1 r2 = Some (b, r2') \<and> same_stream r1 r2'"
    then obtain r2a where a: "gif_buf_read1 r2 = Some (b, r2a)" "same_stream r1 r2a" by blast
    from Suc.IH [OF a(2) rd(2)] a(1) rd(3) show ?thesis by auto
  qed
qed

lemma read16_past_end:
  "past_end r \<Longrightarrow> gif_buf_read16 r = Some (w, r') \<Longrightarrow> past_end r'"
  by (auto simp add: gif_buf_read16_def split: Option.bind_splits) (metis read1_past_end)

lemma read16_replay:
  assumes "same_stream r r2" and "gif_buf_read16 r = Some (w, r')"
  shows "past_end r' \<or> (\<exists>r2'. gif_buf_read16 r2 = Some (w, r2') \<and> same_stream r' r2')"
proof -
  from assms(2) obtain lo r1 hi where
    rd: "gif_buf_read1 r = Some (lo, r1)" "gif_buf_read1 r1 = Some (hi, r')"
      "w = ucast lo + push_bit 8 (ucast hi)"
    by (auto simp add: gif_buf_read16_def split: Option.bind_splits)
  from read1_replay [OF assms(1) rd(1)] show ?thesis
  proof
    assume "past_end r1"
    with rd(2) read1_past_end show ?thesis by blast
  next
    assume "\<exists>r2'. gif_buf_read1 r2 = Some (lo, r2') \<and> same_stream r1 r2'"
    then obtain r2a where a: "gif_buf_read1 r2 = Some (lo, r2a)" "same_stream r1 r2a" by blast
    from read1_replay [OF a(2) rd(2)] a(1) rd(3) show ?thesis
      by (auto simp add: gif_buf_read16_def)
  qed
qed

lemma read_palette_past_end:
  "past_end r \<Longrightarrow> read_palette r dest k = Some (pal, r') \<Longrightarrow> past_end r'"
  by (auto simp add: read_palette_def read_palette_loop_eq split: Option.bind_splits if_splits)
    (metis read_past_end)

lemma read_palette_replay:
  assumes "same_stream r r2" and "read_palette r dest k = Some (pal, r')"
  shows "past_end r' \<or> (\<exists>r2'. read_palette r2 dest k = Some (pal, r2') \<and> same_stream r' r2')"
proof -
  from assms(2) obtain bs where rd: "gif_buf_read r (3 * k) = Some (bs, r')"
    by (auto simp add: read_palette_def read_palette_loop_eq split: Option.bind_splits if_splits)
  from read_replay [OF assms(1) rd] show ?thesis
  proof
    assume "past_end r'"
    then show ?thesis by simp
  next
    assume "\<exists>r2'. gif_buf_read r2 (3 * k) = Some (bs, r2') \<and> same_stream r' r2'"
    then obtain r2' where "gif_buf_read r2 (3 * k) = Some (bs, r2')" "same_stream r' r2'" by blast
    with assms(2) rd show ?thesis
      by (auto simp add: read_palette_def read_palette_loop_eq split: if_splits)
  qed
qed

lemma get_key_loop_unfold:
  "get_key_loop ks sh br k sl b r =
     (if br < ks
      then (case fetch_byte ((unat sh + br) mod 8) sl b r of
              None \<Rightarrow> None
            | Some (sl2, b2, r3) \<Rightarrow>
                get_key_loop ks sh (br + min (ks - br) (8 - (unat sh + br) mod 8))
                  (k OR push_bit br (ucast (drop_bit ((unat sh + br) mod 8) b2))) sl2 b2 r3)
      else Some (k, sl, b, r))"
  by (subst get_key_loop.simps) (simp add: fetch_byte_def Let_def)

lemma fetch_byte_past_end:
  "past_end r \<Longrightarrow> fetch_byte rpad sl b r = Some (sl', b', r') \<Longrightarrow> past_end r'"
  by (auto simp add: fetch_byte_def split: Option.bind_splits if_splits)
    (metis read1_past_end)+

lemma fetch_byte_replay:
  assumes s: "same_stream r r2" and f: "fetch_byte rpad sl b r = Some (sl', b', r')"
  shows "past_end r' \<or> (\<exists>r2'. fetch_byte rpad sl b r2 = Some (sl', b', r2') \<and> same_stream r' r2')"
proof (cases "rpad = 0")
  case False
  with s f show ?thesis by (auto simp add: fetch_byte_def)
next
  case True
  show ?thesis
  proof (cases "sl = 0")
    case sl0: True
    from f True sl0 obtain sl1 r1 where
      rd: "gif_buf_read1 r = Some (sl1, r1)" "gif_buf_read1 r1 = Some (b', r')" "sl' = sl1 - 1"
      by (auto simp add: fetch_byte_def split: Option.bind_splits)
    from read1_replay [OF s rd(1)] show ?thesis
    proof
      assume "past_end r1"
      with rd(2) read1_past_end show ?thesis by blast
    next
      assume "\<exists>r2'. gif_buf_read1 r2 = Some (sl1, r2') \<and> same_stream r1 r2'"
      then obtain r2a where a: "gif_buf_read1 r2 = Some (sl1, r2a)" "same_stream r1 r2a" by blast
      from read1_replay [OF a(2) rd(2)] a(1) rd(3) True sl0 show ?thesis
        by (auto simp add: fetch_byte_def)
    qed
  next
    case sl1: False
    from f True sl1 have rd: "gif_buf_read1 r = Some (b', r')" "sl' = sl - 1"
      by (auto simp add: fetch_byte_def split: Option.bind_splits)
    from read1_replay [OF s rd(1)] rd(2) True sl1 show ?thesis
      by (auto simp add: fetch_byte_def)
  qed
qed

lemma get_key_loop_past_end:
  "past_end r \<Longrightarrow> get_key_loop ks sh br k sl b r = Some (k', sl', b', r') \<Longrightarrow> past_end r'"
proof (induction "ks - br" arbitrary: br k sl b r rule: less_induct)
  case less
  show ?case
  proof (cases "br < ks")
    case False
    with less.prems show ?thesis by (subst (asm) get_key_loop_unfold) simp
  next
    case True
    from less.prems(2) True obtain sl2 b2 r3 where
      f: "fetch_byte ((unat sh + br) mod 8) sl b r = Some (sl2, b2, r3)"
      and rec: "get_key_loop ks sh (br + min (ks - br) (8 - (unat sh + br) mod 8))
                  (k OR push_bit br (ucast (drop_bit ((unat sh + br) mod 8) b2))) sl2 b2 r3
                = Some (k', sl', b', r')"
      by (subst (asm) get_key_loop_unfold) (auto split: option.splits)
    have "(unat sh + br) mod 8 < 8" by simp
    with True have dec: "ks - (br + min (ks - br) (8 - (unat sh + br) mod 8)) < ks - br"
      unfolding min_def by (simp split: if_splits) linarith
    from less.hyps [OF dec fetch_byte_past_end [OF less.prems(1) f] rec] show ?thesis .
  qed
qed

lemma get_key_loop_replay:
  "same_stream r r2 \<Longrightarrow> get_key_loop ks sh br k sl b r = Some (k', sl', b', r') \<Longrightarrow>
   past_end r' \<or> (\<exists>r2'. get_key_loop ks sh br k sl b r2 = Some (k', sl', b', r2') \<and> same_stream r' r2')"
proof (induction "ks - br" arbitrary: br k sl b r r2 rule: less_induct)
  case less
  show ?case
  proof (cases "br < ks")
    case False
    with less.prems show ?thesis
      by (subst (asm) get_key_loop_unfold, subst get_key_loop_unfold) auto
  next
    case True
    from less.prems(2) True obtain sl2 b2 r3 where
      f: "fetch_byte ((unat sh + br) mod 8) sl b r = Some (sl2, b2, r3)"
      and rec: "get_key_loop ks sh (br + min (ks - br) (8 - (unat sh + br) mod 8))
                  (k OR push_bit br (ucast (drop_bit ((unat sh + br) mod 8) b2))) sl2 b2 r3
                = Some (k', sl', b', r')"
      by (subst (asm) get_key_loop_unfold) (auto split: option.splits)
    have "(unat sh + br) mod 8 < 8" by simp
    with True have dec: "ks - (br + min (ks - br) (8 - (unat sh + br) mod 8)) < ks - br"
      unfolding min_def by (simp split: if_splits) linarith
    from fetch_byte_replay [OF less.prems(1) f] show ?thesis
    proof
      assume "past_end r3"
      with rec get_key_loop_past_end show ?thesis by blast
    next
      assume "\<exists>r2'. fetch_byte ((unat sh + br) mod 8) sl b r2 = Some (sl2, b2, r2') \<and> same_stream r3 r2'"
      then obtain r2a where a: "fetch_byte ((unat sh + br) mod 8) sl b r2 = Some (sl2, b2, r2a)"
        "same_stream r3 r2a" by blast
      from less.hyps [OF dec a(2) rec] show ?thesis
      proof
        assume "past_end r'"
        then show ?thesis by simp
      next
        assume "\<exists>r2'. get_key_loop ks sh (br + min (ks - br) (8 - (unat sh + br) mod 8))
                  (k OR push_bit br (ucast (drop_bit ((unat sh + br) mod 8) b2))) sl2 b2 r2a
                = Some (k', sl', b', r2') \<and> same_stream r' r2'"
        then obtain r2' where b: "get_key_loop ks sh (br + min (ks - br) (8 - (unat sh + br) mod 8))
                  (k OR push_bit br (ucast (drop_bit ((unat sh + br) mod 8) b2))) sl2 b2 r2a
                = Some (k', sl', b', r2')" "same_stream r' r2'" by blast
        have "get_key_loop ks sh br k sl b r2 = Some (k', sl', b', r2')"
          using True a(1) b(1) by (subst get_key_loop_unfold) simp
        with b(2) show ?thesis by blast
      qed
    qed
  qed
qed

lemma get_key_past_end:
  "past_end r \<Longrightarrow> get_key ks sl sh b r = Some (k', sl', sh', b', r') \<Longrightarrow> past_end r'"
  by (auto simp add: get_key_def split: Option.bind_splits) (metis get_key_loop_past_end)

lemma get_key_replay:
  assumes "same_stream r r2" and "get_key ks sl sh b r = Some (k', sl', sh', b', r')"
  shows "past_end r' \<or> (\<exists>r2'. get_key ks sl sh b r2 = Some (k', sl', sh', b', r2') \<and> same_stream r' r2')"
proof -
  from assms(2) obtain k0 where g: "get_key_loop ks sh 0 0 sl b r = Some (k0, sl', b', r')"
    "k' = take_bit ks k0" "sh' = of_nat ((unat sh + ks) mod 8)"
    by (auto simp add: get_key_def split: Option.bind_splits)
  from get_key_loop_replay [OF assms(1) g(1)] g(2,3) show ?thesis
    by (auto simp add: get_key_def)
qed

section \<open>A first and a later decoding of the same frame\<close>

lemma replayed_start: "length c2 = length c1 \<Longrightarrow> replayed t c1 c2 c1 c2"
  by (simp add: replayed_def)

lemma replayed_write:
  assumes "replayed t c1 c2 f f2" and "s \<noteq> t"
  shows "replayed t c1 c2 (f[i := s]) (f2[i := s])"
proof (cases "i < length c1")
  case True
  with assms show ?thesis unfolding replayed_def by (auto simp add: nth_list_update)
next
  case False
  with assms have "f[i := s] = f" "f2[i := s] = f2" by (simp_all add: replayed_def list_update_beyond)
  with assms show ?thesis by simp
qed

lemma replayed_skip:
  assumes "replayed t c1 c2 f f2"
  shows "replayed t c1 c2 (f[i := t]) f2"
proof (cases "i < length c1")
  case True
  with assms show ?thesis unfolding replayed_def by (auto simp add: nth_list_update)
next
  case False
  with assms have "f[i := t] = f" by (simp add: replayed_def list_update_beyond)
  with assms show ?thesis by simp
qed

lemma put_pixel_twin:
  assumes tw: "twin g g2" and rp: "replayed t c1 c2 f f2"
    and pp: "put_pixel g il t off e f = Some f'"
  shows "\<exists>f2'. put_pixel g2 il t off e f2 = Some f2' \<and> replayed t c1 c2 f' f2'"
proof -
  define p where "p = off + len e - 1"
  define y where "y = (if il \<noteq> 0 then interlaced_line_index (sint (fh g)) (s16 (p sdiv uint (fw g)))
                       else p sdiv uint (fw g))"
  define a where "a = (uint (fy g) + y) * uint (width g)"
  define i where "i = a + uint (fx g) + p smod uint (fw g)"
  have eq: "put_pixel h il t off e fr =
      (if \<not> in_int32 p \<or> fw g = 0 then None
       else if \<not> processed_first_frame h \<or> t \<noteq> suffix e
            then if in_int32 a \<and> in_int32 (a + uint (fx g)) \<and> 0 \<le> i \<and> i < int (length fr)
                 then Some (fr[nat i := suffix e]) else None
            else Some fr)"
    if "fx h = fx g" "fy h = fy g" "fw h = fw g" "fh h = fh g" "width h = width g" for h fr
    using that by (simp add: put_pixel_def p_def y_def a_def i_def Let_def cong: if_cong)
  have geo: "fx g2 = fx g" "fy g2 = fy g" "fw g2 = fw g" "fh g2 = fh g" "width g2 = width g"
    and fl: "\<not> processed_first_frame g" "processed_first_frame g2"
    using tw by (simp_all add: twin_def)
  have len: "length f = length c1" "length f2 = length c1" using rp by (simp_all add: replayed_def)
  from pp fl(1) have f': "f' = f[nat i := suffix e]"
    and ok: "in_int32 p" "fw g \<noteq> 0" "in_int32 a" "in_int32 (a + uint (fx g))" "0 \<le> i" "i < int (length f)"
    unfolding eq [OF refl refl refl refl refl] by (simp_all split: if_splits)
  show ?thesis
  proof (cases "t = suffix e")
    case True
    have "put_pixel g2 il t off e f2 = Some f2"
      unfolding eq [OF geo] using ok fl True by simp
    moreover have "replayed t c1 c2 f' f2"
      unfolding f' True [symmetric] by (rule replayed_skip [OF rp])
    ultimately show ?thesis by blast
  next
    case False
    have "put_pixel g2 il t off e f2 = Some (f2[nat i := suffix e])"
      unfolding eq [OF geo] using ok fl False len by simp
    moreover have "replayed t c1 c2 f' (f2[nat i := suffix e])"
      unfolding f' using False by (intro replayed_write [OF rp]) simp
    ultimately show ?thesis by blast
  qed
qed

lemma lookup_entry_agree:
  "tables_agree t t2 \<Longrightarrow> lookup_entry t k = Some e \<Longrightarrow> lookup_entry t2 k = Some e"
  by (simp add: tables_agree_def lookup_entry_def split: if_splits)

lemma emit_loop_twin:
  assumes "twin g g2" and "replayed t c1 c2 f f2"
    and "emit_loop n g il t off e f = Some (e', f')"
  shows "\<exists>f2'. emit_loop n g2 il t off e f2 = Some (e', f2') \<and> replayed t c1 c2 f' f2'"
  using assms(2,3)
proof (induction n arbitrary: e f f2)
  case 0
  then show ?case by simp
next
  case (Suc n)
  from Suc.prems(2) obtain f1 where p: "put_pixel g il t off e f = Some f1"
    by (auto split: Option.bind_splits)
  from put_pixel_twin [OF assms(1) Suc.prems(1) p] obtain f21 where
    p2: "put_pixel g2 il t off e f2 = Some f21" "replayed t c1 c2 f1 f21" by blast
  show ?case
  proof (cases "prefix e = 0xFFF")
    case True
    with Suc.prems(2) p p2 show ?thesis by simp
  next
    case False
    with Suc.prems(2) p obtain e1 where
      l: "lookup_entry (table g) (uint (prefix e)) = Some e1"
      and rec: "emit_loop n g il t off e1 f1 = Some (e', f')"
      by (auto split: Option.bind_splits)
    from assms(1) have "tables_agree (table g) (table g2)" by (simp add: twin_def)
    from lookup_entry_agree [OF this l] have l2: "lookup_entry (table g2) (uint (prefix e)) = Some e1" .
    from Suc.IH [OF p2(2) rec] obtain f2' where
      "emit_loop n g2 il t off e1 f21 = Some (e', f2')" "replayed t c1 c2 f' f2'" by blast
    with False p2(1) l2 show ?thesis by simp
  qed
qed

lemma twin_table:
  "twin g g2 \<Longrightarrow> tables_agree t t2 \<Longrightarrow> twin (g\<lparr>table := t\<rparr>) (g2\<lparr>table := t2\<rparr>)"
  by (simp add: twin_def)

lemma add_entry_agree:
  assumes "tables_agree t t2" and "add_entry t l p s = Some (rt, t')"
  shows "\<exists>t2'. add_entry t2 l p s = Some (rt, t2') \<and> tables_agree t' t2'"
proof -
  from assms(1) have n: "nentries t2 = nentries t"
    and e: "\<And>k e. entries t k = Some e \<Longrightarrow> entries t2 k = Some e"
    by (simp_all add: tables_agree_def)
  from assms(2) have rng: "0 \<le> nentries t" "nentries t < 4096"
    and rt: "rt = (if (nentries t + 1) AND nentries t = 0 then 1 else 0)"
    and t': "t' = t\<lparr>nentries := nentries t + 1,
                     entries := (entries t)(nat (nentries t) \<mapsto> \<lparr>len = l, prefix = p, suffix = s\<rparr>)\<rparr>"
    by (simp_all add: add_entry_def Let_def split: if_splits)
  have "add_entry t2 l p s = Some (rt, t2\<lparr>nentries := nentries t + 1,
                     entries := (entries t2)(nat (nentries t) \<mapsto> \<lparr>len = l, prefix = p, suffix = s\<rparr>)\<rparr>)"
    using rng rt n by (simp add: add_entry_def Let_def)
  moreover have "tables_agree t' (t2\<lparr>nentries := nentries t + 1,
                     entries := (entries t2)(nat (nentries t) \<mapsto> \<lparr>len = l, prefix = p, suffix = s\<rparr>)\<rparr>)"
    unfolding t' using e by (simp add: tables_agree_def)
  ultimately show ?thesis by blast
qed

lemma patch_suffix_agree:
  assumes "tables_agree t t2" and "patch_suffix t s = Some t'"
  shows "\<exists>t2'. patch_suffix t2 s = Some t2' \<and> tables_agree t' t2'"
proof -
  from assms(1) have n: "nentries t2 = nentries t"
    and e: "\<And>k e. entries t k = Some e \<Longrightarrow> entries t2 k = Some e"
    by (simp_all add: tables_agree_def)
  define i where "i = nat (nentries t - 1)"
  from assms(2) have rng: "0 \<le> nentries t - 1" "nentries t - 1 < 4096"
    and t': "t' = (case entries t i of None \<Rightarrow> t
                   | Some e \<Rightarrow> t\<lparr>entries := (entries t)(i \<mapsto> e\<lparr>suffix := s\<rparr>)\<rparr>)"
    unfolding i_def by (auto simp add: patch_suffix_def Let_def split: if_splits)
  have p2: "patch_suffix t2 s = Some (case entries t2 i of None \<Rightarrow> t2
                   | Some e \<Rightarrow> t2\<lparr>entries := (entries t2)(i \<mapsto> e\<lparr>suffix := s\<rparr>)\<rparr>)"
    unfolding i_def using rng n by (simp add: patch_suffix_def Let_def)
  have "tables_agree t' (case entries t2 i of None \<Rightarrow> t2
                   | Some e \<Rightarrow> t2\<lparr>entries := (entries t2)(i \<mapsto> e\<lparr>suffix := s\<rparr>)\<rparr>)"
  proof (cases "entries t i")
    case None
    then show ?thesis unfolding t' using n e
      by (auto simp add: tables_agree_def split: option.splits)
  next
    case (Some x)
    with e have "entries t2 i = Some x" by simp
    with Some show ?thesis unfolding t' using n e by (simp add: tables_agree_def)
  qed
  with p2 show ?thesis by blast
qed

lemma loop_head_twin:
  assumes tw: "twin g g2" and run: "loop_head g v = Some (g', v')"
  shows "\<exists>g2'. loop_head g2 v = Some (g2', v') \<and> twin g' g2'"
proof -
  from tw have ag: "tables_agree (table g) (table g2)" by (simp add: twin_def)
  consider (clear) "key v = clear v" | (add) "key v \<noteq> clear v" "\<not> table_is_full v"
    | (full) "key v \<noteq> clear v" "table_is_full v" by blast
  then show ?thesis
  proof cases
    case clear
    with run have g': "g' = g\<lparr>table := (table g)\<lparr>nentries := 2 ^ (init_key_size v - 1) + 2\<rparr>\<rparr>"
      and v': "v' = v\<lparr>key_size := init_key_size v, table_is_full := False\<rparr>"
      by (simp_all add: loop_head_def)
    have "tables_agree ((table g)\<lparr>nentries := 2 ^ (init_key_size v - 1) + 2\<rparr>)
            ((table g2)\<lparr>nentries := 2 ^ (init_key_size v - 1) + 2\<rparr>)"
      using ag by (simp add: tables_agree_def)
    from twin_table [OF tw this] clear show ?thesis
      unfolding g' v' by (simp add: loop_head_def)
  next
    case add
    with run obtain rt t where ok: "in_int32 (str_len v + 1)"
      and a: "add_entry (table g) (str_len v + 1) (key v) (suffix (entry v)) = Some (rt, t)"
      and g': "g' = g\<lparr>table := t\<rparr>"
      and v': "v' = (if nentries t = 0x1000 then v\<lparr>ret := 0, table_is_full := True\<rparr> else v\<lparr>ret := rt\<rparr>)"
      by (auto simp add: loop_head_def split: if_splits Option.bind_splits)
    from add_entry_agree [OF ag a] obtain t2 where
      a2: "add_entry (table g2) (str_len v + 1) (key v) (suffix (entry v)) = Some (rt, t2)"
      and ag2: "tables_agree t t2" by blast
    from ag2 have "nentries t2 = nentries t" by (simp add: tables_agree_def)
    with add ok a2 have "loop_head g2 v = Some (g2\<lparr>table := t2\<rparr>, v')"
      unfolding v' by (simp add: loop_head_def)
    with twin_table [OF tw ag2] show ?thesis unfolding g' by blast
  next
    case full
    with run tw show ?thesis by (simp add: loop_head_def)
  qed
qed

lemma loop_body_past_end:
  assumes "past_end r" and "loop_body n il g v r f = Some (go, g', v', r', f')"
  shows "past_end r'"
  using assms(2)
proof (cases rule: loop_body_cases)
  case (code gif1 v1 k sl sh b)
  from get_key_past_end [OF assms(1) code(2)] show ?thesis .
next
  case (string gif1 v1 k sl sh b e e1)
  from get_key_past_end [OF assms(1) string(2)] show ?thesis .
qed

lemma loop_body_replay:
  assumes s: "same_stream r r2" and tw: "twin g g2"
    and rp: "replayed (tindex (gce g)) c1 c2 f f2"
    and run: "loop_body n il g v r f = Some (go, g', v', r', f')"
  shows "past_end r' \<or>
         (\<exists>g2' r2' f2'. loop_body n il g2 v r2 f2 = Some (go, g2', v', r2', f2')
            \<and> same_stream r' r2' \<and> twin g' g2' \<and> replayed (tindex (gce g)) c1 c2 f' f2')"
  using run
proof (cases rule: loop_body_cases)
  case (code gif1 v1 k sl sh b)
  from loop_head_twin [OF tw code(1)] obtain g21 where
    h2: "loop_head g2 v = Some (g21, v1)" and tw1: "twin gif1 g21" by blast
  from get_key_replay [OF s code(2)] show ?thesis
  proof
    assume "past_end r'"
    then show ?thesis ..
  next
    assume "\<exists>r2'. get_key (key_size v1) (sub_len v1) (shift v1) (byte v1) r2 = Some (k, sl, sh, b, r2')
              \<and> same_stream r' r2'"
    then obtain r2' where
      k2: "get_key (key_size v1) (sub_len v1) (shift v1) (byte v1) r2 = Some (k, sl, sh, b, r2')"
      and s': "same_stream r' r2'" by blast
    have "loop_body n il g2 v r2 f2 = Some (go, g21, v', r2', f2)"
      using h2 k2 code(3,4,6) by (auto simp add: loop_body_def Let_def)
    with s' tw1 rp code(5,7) show ?thesis by blast
  qed
next
  case (string gif1 v1 k sl sh b e e1)
  from loop_head_twin [OF tw string(1)] obtain g21 where
    h2: "loop_head g2 v = Some (g21, v1)" and tw1: "twin gif1 g21" by blast
  from loop_head_inv [where c = False, OF string(1)] have "gif1 = g\<lparr>table := table gif1\<rparr>" by simp
  then have "gce gif1 = gce g" by (metis gd_GIF.select_convs(6) gd_GIF.surjective gd_GIF.update_convs(15))
  with tw1 have ti: "tindex (gce gif1) = tindex (gce g)" "tindex (gce g21) = tindex (gce g)"
    by (simp_all add: twin_def)
  from tw1 have ag: "tables_agree (table gif1) (table g21)" by (simp add: twin_def)
  from get_key_replay [OF s string(2)] show ?thesis
  proof
    assume "past_end r'"
    then show ?thesis ..
  next
    assume "\<exists>r2'. get_key (key_size v1) (sub_len v1) (shift v1) (byte v1) r2 = Some (k, sl, sh, b, r2')
              \<and> same_stream r' r2'"
    then obtain r2' where
      k2: "get_key (key_size v1) (sub_len v1) (shift v1) (byte v1) r2 = Some (k, sl, sh, b, r2')"
      and s': "same_stream r' r2'" by blast
    from lookup_entry_agree [OF ag string(6)]
    have l2: "lookup_entry (table g21) (uint k) = Some e" .
    from string(7) have em: "emit_loop n gif1 il (tindex (gce g)) (frm_off v1) e f = Some (e1, f')"
      by (simp add: ti)
    from emit_loop_twin [OF tw1 rp em] obtain f2' where
      em2: "emit_loop n g21 il (tindex (gce g)) (frm_off v1) e f2 = Some (e1, f2')"
      and rp': "replayed (tindex (gce g)) c1 c2 f' f2'" by blast
    from ag have ne: "nentries (table g21) = nentries (table gif1)" by (simp add: tables_agree_def)
    have "\<exists>g2'. (if uint k < nentries (table g21) - 1 \<and> \<not> table_is_full v1
                 then do { t \<leftarrow> patch_suffix (table g21) (suffix e1); Some (g21\<lparr>table := t\<rparr>) }
                 else Some g21) = Some g2' \<and> twin g' g2'"
    proof (cases "uint k < nentries (table gif1) - 1 \<and> \<not> table_is_full v1")
      case True
      with string(10) obtain t where p: "patch_suffix (table gif1) (suffix e1) = Some t"
        and g': "g' = gif1\<lparr>table := t\<rparr>" by auto
      from patch_suffix_agree [OF ag p] obtain t2 where
        "patch_suffix (table g21) (suffix e1) = Some t2" "tables_agree t t2" by blast
      with True ne twin_table [OF tw1] show ?thesis unfolding g' by simp
    next
      case False
      with string(10) have "g' = gif1" by auto
      with False ne tw1 show ?thesis by auto
    qed
    then obtain g2' where
      p2: "(if uint k < nentries (table g21) - 1 \<and> \<not> table_is_full v1
            then do { t \<leftarrow> patch_suffix (table g21) (suffix e1); Some (g21\<lparr>table := t\<rparr>) }
            else Some g21) = Some g2'"
      and tw': "twin g' g2'" by blast
    have "loop_body n il g2 v r2 f2 = Some (go, g2', v', r2', f2')"
      unfolding loop_body_def
      using h2 k2 string(3,4,5,8) l2 em2 p2
      by (simp add: Let_def ti string(9))
    with s' tw' rp' show ?thesis by blast
  qed
qed

lemma read_image_loop_past_end:
  "past_end r \<Longrightarrow> read_image_loop n il g v r f = Some (g', v', r', f') \<Longrightarrow> past_end r'"
proof (induction n arbitrary: g v r f)
  case 0
  then show ?case by simp
next
  case (Suc n)
  from Suc.prems(2) obtain go g1 v1 r1 f1 where
    b: "loop_body n il g v r f = Some (go, g1, v1, r1, f1)"
    by (auto split: option.splits)
  from loop_body_past_end [OF Suc.prems(1) b] have pe: "past_end r1" .
  show ?case
  proof (cases go)
    case True
    with Suc.prems(2) b have "read_image_loop n il g1 v1 r1 f1 = Some (g', v', r', f')" by simp
    from Suc.IH [OF pe this] show ?thesis .
  next
    case False
    with Suc.prems(2) b pe show ?thesis by simp
  qed
qed

lemma read_image_loop_replay:
  "same_stream r r2 \<Longrightarrow> twin g g2 \<Longrightarrow> replayed (tindex (gce g)) c1 c2 f f2 \<Longrightarrow>
   read_image_loop n il g v r f = Some (g', v', r', f') \<Longrightarrow>
   past_end r' \<or>
   (\<exists>g2' v2' r2' f2'. read_image_loop n il g2 v r2 f2 = Some (g2', v2', r2', f2')
      \<and> same_stream r' r2' \<and> replayed (tindex (gce g)) c1 c2 f' f2')"
proof (induction n arbitrary: g g2 v r r2 f f2)
  case 0
  then show ?case by simp
next
  case (Suc n)
  from Suc.prems(4) obtain go g1 v1 r1 f1 where
    b: "loop_body n il g v r f = Some (go, g1, v1, r1, f1)"
    by (auto split: option.splits)
  from loop_body_inv [where c = False and P = "\<lambda>_. True", OF b]
  have "g1 = g\<lparr>table := table g1\<rparr>" by simp
  then have gce: "gce g1 = gce g"
    by (metis gd_GIF.select_convs(6) gd_GIF.surjective gd_GIF.update_convs(15))
  from loop_body_replay [OF Suc.prems(1,2,3) b] show ?case
  proof
    assume pe: "past_end r1"
    show ?thesis
    proof (cases go)
      case True
      with Suc.prems(4) b have "read_image_loop n il g1 v1 r1 f1 = Some (g', v', r', f')" by simp
      from read_image_loop_past_end [OF pe this] show ?thesis ..
    next
      case False
      with Suc.prems(4) b pe show ?thesis by simp
    qed
  next
    assume "\<exists>g2' r2' f2'. loop_body n il g2 v r2 f2 = Some (go, g2', v1, r2', f2')
              \<and> same_stream r1 r2' \<and> twin g1 g2' \<and> replayed (tindex (gce g)) c1 c2 f1 f2'"
    then obtain g21 r21 f21 where
      b2: "loop_body n il g2 v r2 f2 = Some (go, g21, v1, r21, f21)"
      and s1: "same_stream r1 r21" and tw1: "twin g1 g21"
      and rp1: "replayed (tindex (gce g)) c1 c2 f1 f21" by blast
    show ?thesis
    proof (cases go)
      case True
      with Suc.prems(4) b have rec: "read_image_loop n il g1 v1 r1 f1 = Some (g', v', r', f')" by simp
      from rp1 have "replayed (tindex (gce g1)) c1 c2 f1 f21" by (simp add: gce)
      from Suc.IH [OF s1 tw1 this rec] True b2 show ?thesis by (simp add: gce)
    next
      case False
      with Suc.prems(4) b b2 s1 rp1 show ?thesis by simp
    qed
  qed
qed

lemma reset_loop_agree:
  "reset_loop es k c = Some es' \<Longrightarrow> (\<forall>j e. es j = Some e \<longrightarrow> es2 j = Some e) \<Longrightarrow>
   \<exists>es2'. reset_loop es2 k c = Some es2' \<and> (\<forall>j e. es' j = Some e \<longrightarrow> es2' j = Some e)"
proof (induction c arbitrary: es es2 k)
  case 0
  then show ?case by simp
next
  case (Suc c)
  from Suc.prems(1) have lt: "k < 4096" and
    rec: "reset_loop (es(k \<mapsto> \<lparr>len = 1, prefix = 0xFFF, suffix = of_nat k\<rparr>)) (Suc k) c = Some es'"
    by (auto split: if_splits)
  have "\<forall>j e. (es(k \<mapsto> \<lparr>len = 1, prefix = 0xFFF, suffix = of_nat k\<rparr>)) j = Some e
          \<longrightarrow> (es2(k \<mapsto> \<lparr>len = 1, prefix = 0xFFF, suffix = of_nat k\<rparr>)) j = Some e"
    using Suc.prems(2) by simp
  from Suc.IH [OF rec this] obtain es2' where
    "reset_loop (es2(k \<mapsto> \<lparr>len = 1, prefix = 0xFFF, suffix = of_nat k\<rparr>)) (Suc k) c = Some es2'"
    "\<forall>j e. es' j = Some e \<longrightarrow> es2' j = Some e" by blast
  with lt show ?case by (simp del: fun_upd_apply)
qed

lemma reset_table_agree:
  assumes "reset_table t ks = Some t'" and "\<forall>j e. entries t j = Some e \<longrightarrow> entries t2 j = Some e"
  shows "\<exists>t2'. reset_table t2 ks = Some t2' \<and> tables_agree t' t2'"
proof -
  from assms(1) obtain es where ks: "ks < 16"
    and l: "reset_loop (entries t) 0 (2 ^ ks) = Some es"
    and t': "t' = \<lparr>nentries = 2 ^ ks + 2, entries = es\<rparr>"
    by (auto simp add: reset_table_def split: if_splits Option.bind_splits)
  from reset_loop_agree [OF l assms(2)] obtain es2 where
    "reset_loop (entries t2) 0 (2 ^ ks) = Some es2" "\<forall>j e. es j = Some e \<longrightarrow> es2 j = Some e"
    by blast
  with ks show ?thesis unfolding t' by (simp add: reset_table_def tables_agree_def)
qed

text \<open>
  What a first decoding and a later one of the same session have in common when a frame
  starts: the canvas width, the graphic control fields, and every dictionary entry the
  first one can read.
\<close>

lemma read_image_data_past_end:
  assumes "past_end r" and "read_image_data n g il r f = Some (res, g', r', f')"
  shows "past_end r'"
  using assms(2)
proof (cases rule: read_image_data_cases)
  case (1 b r1 t k sl sh b1 r2 gif1 v1 r3 sl1)
  from read1_past_end [OF assms(1) 1(1)] have "past_end r1" .
  from get_key_past_end [OF this 1(3)] have "past_end r2" .
  from read_image_loop_past_end [OF this 1(4)] have "past_end r3" .
  from read1_past_end [OF this 1(5)] show ?thesis .
qed

lemma read_image_data_replay:
  assumes s: "same_stream r r2"
    and geo: "fx g2 = fx g" "fy g2 = fy g" "fw g2 = fw g" "fh g2 = fh g"
    and rs: "replays g g2"
    and rp: "replayed (tindex (gce g)) c1 c2 f f2"
    and run: "read_image_data n g il r f = Some (res, g', r', f')"
  shows "past_end r' \<or>
         (\<exists>g2' r2' f2'. read_image_data n g2 il r2 f2 = Some (res, g2', r2', f2')
            \<and> same_stream r' r2' \<and> replayed (tindex (gce g)) c1 c2 f' f2')"
  using run
proof (cases rule: read_image_data_cases)
  case (1 b r1 t k sl sh b1 r2a gif1 v1 r3 sl1)
  define v where "v = \<lparr>sub_len = sl, shift = sh, byte = b1, table_is_full = False,
        init_key_size = unat b + 1, key_size = unat b + 1, frm_off = 0, str_len = 0,
        key = k, clear = push_bit (unat b) 1, stop = push_bit (unat b) 1 + 1, ret = 0,
        entry = \<lparr>len = 0, prefix = 0, suffix = 0\<rparr>\<rparr>"
  note loop = 1(4) [folded v_def]
  from rs have ent: "\<forall>j e. entries (table g) j = Some e \<longrightarrow> entries (table g2) j = Some e"
    by (simp add: replays_def)
  from reset_table_agree [OF 1(2) ent] obtain t2 where
    t2: "reset_table (table g2) (unat b) = Some t2" and ag: "tables_agree t t2" by blast
  have tw: "twin (g\<lparr>table := t\<rparr>) (g2\<lparr>table := t2\<rparr>)"
    using geo rs ag by (simp add: twin_def replays_def)
  have rp': "replayed (tindex (gce (g\<lparr>table := t\<rparr>))) c1 c2 f f2" using rp by simp
  from read1_replay [OF s 1(1)] show ?thesis
  proof
    assume "past_end r1"
    from get_key_past_end [OF this 1(3)] have "past_end r2a" .
    from read_image_loop_past_end [OF this 1(4)] have "past_end r3" .
    from read1_past_end [OF this 1(5)] show ?thesis ..
  next
    assume "\<exists>r2'. gif_buf_read1 r2 = Some (b, r2') \<and> same_stream r1 r2'"
    then obtain q1 where q1: "gif_buf_read1 r2 = Some (b, q1)" "same_stream r1 q1" by blast
    from get_key_replay [OF q1(2) 1(3)] show ?thesis
    proof
      assume "past_end r2a"
      from read_image_loop_past_end [OF this 1(4)] have "past_end r3" .
      from read1_past_end [OF this 1(5)] show ?thesis ..
    next
      assume "\<exists>r2'. get_key (unat b + 1) 0 0 b q1 = Some (k, sl, sh, b1, r2') \<and> same_stream r2a r2'"
      then obtain q2 where q2: "get_key (unat b + 1) 0 0 b q1 = Some (k, sl, sh, b1, q2)"
        "same_stream r2a q2" by blast
      from read_image_loop_replay [OF q2(2) tw rp' loop] show ?thesis
      proof
        assume "past_end r3"
        from read1_past_end [OF this 1(5)] show ?thesis ..
      next
        assume "\<exists>g2' v2' r2' f2'.
                  read_image_loop n il (g2\<lparr>table := t2\<rparr>) v q2 f2 = Some (g2', v2', r2', f2')
                  \<and> same_stream r3 r2' \<and> replayed (tindex (gce (g\<lparr>table := t\<rparr>))) c1 c2 f' f2'"
        then obtain g2' v2' q3 f2' where
          l2: "read_image_loop n il (g2\<lparr>table := t2\<rparr>) v q2 f2 = Some (g2', v2', q3, f2')"
          and s3: "same_stream r3 q3"
          and rp3: "replayed (tindex (gce g)) c1 c2 f' f2'" by auto
        from read1_replay [OF s3 1(5)] show ?thesis
        proof
          assume "past_end r'"
          then show ?thesis ..
        next
          assume "\<exists>r2'. gif_buf_read1 q3 = Some (sl1, r2') \<and> same_stream r' r2'"
          then obtain q4 where q4: "gif_buf_read1 q3 = Some (sl1, q4)"
            and s4: "same_stream r' q4" by blast
          have "read_image_data n g2 il r2 f2
                  = Some (res, g2'\<lparr>processed_first_frame := True\<rparr>, q4, f2')"
            unfolding read_image_data_def
            using q1(1) t2 q2(1) l2 q4 1(6) by (simp add: Let_def v_def)
          with s4 rp3 show ?thesis by blast
        qed
      qed
    qed
  qed
qed

lemma read_palette_replay_into:
  assumes "same_stream r r2" and "length (colors dest2) = length (colors dest)"
    and "read_palette r dest k = Some (pal, r')"
  shows "past_end r' \<or>
         (\<exists>pal2 r2'. read_palette r2 dest2 k = Some (pal2, r2') \<and> same_stream r' r2'
            \<and> length (colors pal2) = length (colors pal))"
proof -
  from assms(3) obtain bs where rd: "gif_buf_read r (3 * k) = Some (bs, r')"
    and ok: "k = 0 \<or> k \<le> length (colors dest)"
    and pal: "pal = dest\<lparr>pal_len := int k, colors := map (\<lambda>(a, b, c). rgb_store a b c) (triples bs)
                       @ drop k (colors dest)\<rparr>"
    by (auto simp add: read_palette_def read_palette_loop_eq split: Option.bind_splits if_splits)
  from read_replay [OF assms(1) rd] show ?thesis
  proof
    assume "past_end r'"
    then show ?thesis ..
  next
    assume "\<exists>r2'. gif_buf_read r2 (3 * k) = Some (bs, r2') \<and> same_stream r' r2'"
    then obtain r2' where "gif_buf_read r2 (3 * k) = Some (bs, r2')" "same_stream r' r2'" by blast
    with ok assms(2) pal show ?thesis
      by (auto simp add: read_palette_def read_palette_loop_eq)
  qed
qed

lemma read_image_steps:
  assumes "read_image n g r f = Some (res, g', r', f')"
  obtains x y w h fisrz ra rb rc rd re gm rm where
    "gif_buf_read16 r = Some (x, ra)" "gif_buf_read16 ra = Some (y, rb)"
    "gif_buf_read16 rb = Some (w, rc)" "gif_buf_read16 rc = Some (h, rd)"
    "gif_buf_read1 rd = Some (fisrz, re)"
    "if fisrz AND 0x80 \<noteq> 0
     then \<exists>pal. read_palette re (lct g) (2 ^ (unat (fisrz AND 0x07) + 1)) = Some (pal, rm)
            \<and> gm = g\<lparr>fx := x, fy := y, fw := w, fh := h, lct := pal, palette := Lct\<rparr>
     else rm = re \<and> gm = g\<lparr>fx := x, fy := y, fw := w, fh := h, palette := Gct\<rparr>"
    "read_image_data n gm (uint (fisrz AND 0x40)) rm f = Some (res, g', r', f')"
  using assms
  by (auto simp add: read_image_def Let_def split: Option.bind_splits if_splits)

lemma read_image_past_end:
  assumes "past_end r" and "read_image n g r f = Some (res, g', r', f')"
  shows "past_end r'"
  using assms(2)
proof (cases rule: read_image_steps)
  case (1 x y w h fisrz ra rb rc rd re gm rm)
  from read16_past_end [OF assms(1) 1(1)] have "past_end ra" .
  from read16_past_end [OF this 1(2)] have "past_end rb" .
  from read16_past_end [OF this 1(3)] have "past_end rc" .
  from read16_past_end [OF this 1(4)] have "past_end rd" .
  from read1_past_end [OF this 1(5)] have "past_end re" .
  with 1(6) have "past_end rm"
    by (auto split: if_splits dest: read_palette_past_end)
  from read_image_data_past_end [OF this 1(7)] show ?thesis .
qed

lemma read_image_replay:
  assumes s: "same_stream r r2" and rs: "replays g g2"
    and rp: "replayed (tindex (gce g)) c1 c2 f f2"
    and run: "read_image n g r f = Some (res, g', r', f')"
  shows "past_end r' \<or>
         (\<exists>g2' r2' f2'. read_image n g2 r2 f2 = Some (res, g2', r2', f2')
            \<and> same_stream r' r2' \<and> replayed (tindex (gce g)) c1 c2 f' f2')"
proof (cases "past_end r'")
  case True
  then show ?thesis ..
next
  case False
  from run show ?thesis
  proof (cases rule: read_image_steps)
    case (1 x y w h fisrz ra rb rc rd re gm rm)
    from False read_image_data_past_end [OF _ 1(7)] have nm: "\<not> past_end rm" by blast
    with 1(6) have ne: "\<not> past_end re"
      by (auto split: if_splits dest: read_palette_past_end)
    with read1_past_end [OF _ 1(5)] have nd: "\<not> past_end rd" by blast
    with read16_past_end [OF _ 1(4)] have nc: "\<not> past_end rc" by blast
    with read16_past_end [OF _ 1(3)] have nb: "\<not> past_end rb" by blast
    with read16_past_end [OF _ 1(2)] have na: "\<not> past_end ra" by blast
    from read16_replay [OF s 1(1)] na obtain qa where
      qa: "gif_buf_read16 r2 = Some (x, qa)" "same_stream ra qa" by blast
    from read16_replay [OF qa(2) 1(2)] nb obtain qb where
      qb: "gif_buf_read16 qa = Some (y, qb)" "same_stream rb qb" by blast
    from read16_replay [OF qb(2) 1(3)] nc obtain qc where
      qc: "gif_buf_read16 qb = Some (w, qc)" "same_stream rc qc" by blast
    from read16_replay [OF qc(2) 1(4)] nd obtain qd where
      qd: "gif_buf_read16 qc = Some (h, qd)" "same_stream rd qd" by blast
    from read1_replay [OF qd(2) 1(5)] ne obtain qe where
      qe: "gif_buf_read1 qd = Some (fisrz, qe)" "same_stream re qe" by blast
    from rs have ll: "length (colors (lct g2)) = length (colors (lct g))" by (simp add: replays_def)
    have "\<exists>gm2 qm.
            (if fisrz AND 0x80 \<noteq> 0
             then \<exists>pal2. read_palette qe (lct g2) (2 ^ (unat (fisrz AND 0x07) + 1)) = Some (pal2, qm)
                    \<and> gm2 = g2\<lparr>fx := x, fy := y, fw := w, fh := h, lct := pal2, palette := Lct\<rparr>
             else qm = qe \<and> gm2 = g2\<lparr>fx := x, fy := y, fw := w, fh := h, palette := Gct\<rparr>)
            \<and> same_stream rm qm \<and> replays gm gm2
            \<and> fx gm2 = fx gm \<and> fy gm2 = fy gm \<and> fw gm2 = fw gm \<and> fh gm2 = fh gm
            \<and> gce gm = gce g"
    proof (cases "fisrz AND 0x80 \<noteq> 0")
      case True
      with 1(6) obtain pal where
        p: "read_palette re (lct g) (2 ^ (unat (fisrz AND 0x07) + 1)) = Some (pal, rm)"
        and gm: "gm = g\<lparr>fx := x, fy := y, fw := w, fh := h, lct := pal, palette := Lct\<rparr>"
        by auto
      from read_palette_replay_into [OF qe(2) ll p] nm obtain pal2 qm where
        "read_palette qe (lct g2) (2 ^ (unat (fisrz AND 0x07) + 1)) = Some (pal2, qm)"
        "same_stream rm qm" "length (colors pal2) = length (colors pal)" by blast
      with True rs show ?thesis unfolding gm by (auto simp add: replays_def)
    next
      case False
      with 1(6) have "rm = re" "gm = g\<lparr>fx := x, fy := y, fw := w, fh := h, palette := Gct\<rparr>"
        by auto
      with False rs qe(2) show ?thesis by (auto simp add: replays_def)
    qed
    then obtain gm2 qm where
      m2: "(if fisrz AND 0x80 \<noteq> 0
             then \<exists>pal2. read_palette qe (lct g2) (2 ^ (unat (fisrz AND 0x07) + 1)) = Some (pal2, qm)
                    \<and> gm2 = g2\<lparr>fx := x, fy := y, fw := w, fh := h, lct := pal2, palette := Lct\<rparr>
             else qm = qe \<and> gm2 = g2\<lparr>fx := x, fy := y, fw := w, fh := h, palette := Gct\<rparr>)"
      and sm: "same_stream rm qm" and rm: "replays gm gm2"
      and geo: "fx gm2 = fx gm" "fy gm2 = fy gm" "fw gm2 = fw gm" "fh gm2 = fh gm"
      and gce: "gce gm = gce g" by blast
    from rp have "replayed (tindex (gce gm)) c1 c2 f f2" by (simp add: gce)
    from read_image_data_replay [OF sm geo rm this 1(7)] False obtain g2' r2' f2' where
      d2: "read_image_data n gm2 (uint (fisrz AND 0x40)) qm f2 = Some (res, g2', r2', f2')"
      and s': "same_stream r' r2'"
      and rp': "replayed (tindex (gce g)) c1 c2 f' f2'" by (auto simp add: gce)
    have "read_image n g2 r2 f2 = Some (res, g2', r2', f2')"
    proof (cases "fisrz AND 0x80 \<noteq> 0")
      case True
      with m2 obtain pal2 where
        "read_palette qe (lct g2) (2 ^ (unat (fisrz AND 0x07) + 1)) = Some (pal2, qm)"
        "gm2 = g2\<lparr>fx := x, fy := y, fw := w, fh := h, lct := pal2, palette := Lct\<rparr>" by auto
      with True qa(1) qb(1) qc(1) qd(1) qe(1) d2 show ?thesis
        by (simp add: read_image_def Let_def)
    next
      case False
      with m2 have "qm = qe" "gm2 = g2\<lparr>fx := x, fy := y, fw := w, fh := h, palette := Gct\<rparr>"
        by auto
      with False qa(1) qb(1) qc(1) qd(1) qe(1) d2 show ?thesis
        by (simp add: read_image_def Let_def)
    qed
    with s' rp' show ?thesis by blast
  qed
qed

section \<open>The file behind the reader\<close>

lemma read1_file:
  "gif_buf_read1 r = Some (b, r') \<Longrightarrow>
   fdata (fd r') = fdata (fd r) \<and> file_pos r' = file_pos r + 1"
  by (auto simp add: gif_buf_read1_def gif_buf_fill_def fd_read_def Let_def split: if_splits)

lemma read_file:
  "gif_buf_read r k = Some (bs, r') \<Longrightarrow>
   fdata (fd r') = fdata (fd r) \<and> file_pos r' = file_pos r + of_nat k \<and> length bs = k"
proof (induction k arbitrary: r bs)
  case 0
  then show ?case by simp
next
  case (Suc k)
  from Suc.prems obtain b r1 bs1 where
    s: "gif_buf_read1 r = Some (b, r1)" "gif_buf_read r1 k = Some (bs1, r')" "bs = b # bs1"
    by (auto split: Option.bind_splits)
  from read1_file [OF s(1)] Suc.IH [OF s(2)] s(3) show ?case by simp
qed

lemma read16_file:
  "gif_buf_read16 r = Some (w, r') \<Longrightarrow>
   fdata (fd r') = fdata (fd r) \<and> file_pos r' = file_pos r + 2"
  by (auto simp add: gif_buf_read16_def split: Option.bind_splits dest!: read1_file)

lemma length_triples: "length (triples bs) = length bs div 3"
  by (induction bs rule: triples.induct) simp_all

lemma read_palette_file:
  assumes "read_palette r dest k = Some (pal, r')"
  shows "fdata (fd r') = fdata (fd r) \<and> file_pos r' = file_pos r + of_nat (3 * k)
         \<and> length (colors pal) = length (colors dest)"
proof -
  from assms obtain bs where rd: "gif_buf_read r (3 * k) = Some (bs, r')"
    and ok: "k = 0 \<or> k \<le> length (colors dest)"
    and pal: "pal = dest\<lparr>pal_len := int k, colors := map (\<lambda>(a, b, c). rgb_store a b c) (triples bs)
                       @ drop k (colors dest)\<rparr>"
    by (auto simp add: read_palette_def read_palette_loop_eq split: Option.bind_splits if_splits)
  from read_file [OF rd] have f: "fdata (fd r') = fdata (fd r)"
    "file_pos r' = file_pos r + of_nat (3 * k)" "length bs = 3 * k" by simp_all
  from f(3) have "length (triples bs) = k" by (simp add: length_triples)
  with ok pal have "length (colors pal) = length (colors dest)" by auto
  with f show ?thesis by simp
qed

lemma fetch_byte_file:
  "fetch_byte rpad sl b r = Some (sl', b', r') \<Longrightarrow> fdata (fd r') = fdata (fd r)"
  by (auto simp add: fetch_byte_def split: Option.bind_splits if_splits dest!: read1_file)

lemma get_key_loop_file:
  "get_key_loop ks sh br k sl b r = Some (k', sl', b', r') \<Longrightarrow> fdata (fd r') = fdata (fd r)"
proof (induction "ks - br" arbitrary: br k sl b r rule: less_induct)
  case less
  show ?case
  proof (cases "br < ks")
    case False
    with less.prems show ?thesis by (subst (asm) get_key_loop_unfold) simp
  next
    case True
    define rpad where "rpad = (unat sh + br) mod 8"
    from less.prems True obtain sl2 b2 r3 where
      f: "fetch_byte rpad sl b r = Some (sl2, b2, r3)"
      and rec: "get_key_loop ks sh (br + min (ks - br) (8 - rpad))
                  (k OR push_bit br (ucast (drop_bit rpad b2))) sl2 b2 r3 = Some (k', sl', b', r')"
      by (subst (asm) get_key_loop_unfold) (auto simp add: rpad_def split: option.splits)
    have "rpad < 8" by (simp add: rpad_def)
    with True have dec: "ks - (br + min (ks - br) (8 - rpad)) < ks - br"
      unfolding min_def by (simp split: if_splits) linarith
    from less.hyps [OF dec rec] fetch_byte_file [OF f] show ?thesis by simp
  qed
qed

lemma get_key_file:
  "get_key ks sl sh b r = Some (k', sl', sh', b', r') \<Longrightarrow> fdata (fd r') = fdata (fd r)"
  by (auto simp add: get_key_def split: Option.bind_splits dest: get_key_loop_file)

lemma loop_body_file:
  assumes "loop_body n il g v r f = Some (go, g', v', r', f')"
  shows "fdata (fd r') = fdata (fd r)"
  using assms
proof (cases rule: loop_body_cases)
  case (code gif1 v1 k sl sh b)
  from get_key_file [OF code(2)] show ?thesis .
next
  case (string gif1 v1 k sl sh b e e1)
  from get_key_file [OF string(2)] show ?thesis .
qed

lemma read_image_loop_file:
  "read_image_loop n il g v r f = Some (g', v', r', f') \<Longrightarrow> fdata (fd r') = fdata (fd r)"
proof (induction n arbitrary: g v r f)
  case 0
  then show ?case by simp
next
  case (Suc n)
  from Suc.prems obtain go g1 v1 r1 f1 where
    b: "loop_body n il g v r f = Some (go, g1, v1, r1, f1)"
    by (auto split: option.splits)
  from loop_body_file [OF b] have d: "fdata (fd r1) = fdata (fd r)" .
  show ?case
  proof (cases go)
    case True
    with Suc.prems b have "read_image_loop n il g1 v1 r1 f1 = Some (g', v', r', f')" by simp
    from Suc.IH [OF this] d show ?thesis by simp
  next
    case False
    with Suc.prems b d show ?thesis by simp
  qed
qed

lemma read_image_data_file:
  assumes "read_image_data n g il r f = Some (res, g', r', f')"
  shows "fdata (fd r') = fdata (fd r)"
  using assms
proof (cases rule: read_image_data_cases)
  case (1 b r1 t k sl sh b1 r2 gif1 v1 r3 sl1)
  from read1_file [OF 1(1)] get_key_file [OF 1(3)] read_image_loop_file [OF 1(4)]
    read1_file [OF 1(5)] show ?thesis by simp
qed

lemma read_image_file:
  assumes "read_image n g r f = Some (res, g', r', f')"
  shows "fdata (fd r') = fdata (fd r) \<and> anim_start g' = anim_start g \<and> width g' = width g
         \<and> gce g' = gce g \<and> processed_first_frame g'
         \<and> length (colors (lct g')) = length (colors (lct g))"
  using assms
proof (cases rule: read_image_steps)
  case (1 x y w h fisrz ra rb rc rd re gm rm)
  from read16_file [OF 1(1)] read16_file [OF 1(2)] read16_file [OF 1(3)] read16_file [OF 1(4)]
    read1_file [OF 1(5)]
  have e: "fdata (fd re) = fdata (fd r)" by simp
  from 1(6) have m: "fdata (fd rm) = fdata (fd re) \<and> anim_start gm = anim_start g
      \<and> width gm = width g \<and> gce gm = gce g \<and> length (colors (lct gm)) = length (colors (lct g))"
    by (auto split: if_splits dest!: read_palette_file)
  from read_image_data_inv [where c = False and P = "\<lambda>_. True", OF 1(7)]
  have "g' = gm\<lparr>table := table g', processed_first_frame := True\<rparr>" by simp
  then obtain t where eq: "g' = gm\<lparr>table := t, processed_first_frame := True\<rparr>" ..
  have g': "anim_start g' = anim_start gm" "width g' = width gm" "gce g' = gce gm"
    "processed_first_frame g'" "lct g' = lct gm"
    unfolding eq by simp_all
  from read_image_data_file [OF 1(7)] e m g' show ?thesis by simp
qed

lemma sint_small: "n < 32768 \<Longrightarrow> sint (of_nat n :: 16 word) = int n"
proof -
  assume "n < 32768"
  have "sint (of_nat n :: 16 word) = sint (word_of_int (int n) :: 16 word)" by simp
  also have "\<dots> = signed_take_bit 15 (int n)" by (simp only: sint_sbintrunc') simp
  also have "\<dots> = int n" using \<open>n < 32768\<close> by (intro signed_take_bit_int_eq_self) simp_all
  finally show ?thesis .
qed

lemma gd_open_gif_state:
  assumes pos0: "fpos (fd r0) = 0" and buf: "length (gif_buf r0) = GIF_BUF_SIZE"
    and len: "first_block (fdata (fd r0)) \<le> length (fdata (fd r0))"
    and op: "gd_open_gif r0 = Some (Some gif, r)"
  shows "reader_ok r \<and> fdata (fd r) = fdata (fd r0)
         \<and> ahead r = drop (first_block (fdata (fd r0))) (fdata (fd r0))
         \<and> anim_start gif = int (first_block (fdata (fd r0)))
         \<and> \<not> processed_first_frame gif \<and> table gif = new_table"
proof -
  define data where "data = fdata (fd r0)"
  define k :: nat where "k = 2 ^ (unat (data ! 10 AND 0x07) + 1)"
  define ri where "ri = r0\<lparr>gif_buf_last_idx := int GIF_BUF_SIZE, gif_buf_idx := int GIF_BUF_SIZE,
                      file_pos := 0\<rparr>"
  have k: "k \<le> 256" unfolding k_def by (rule gct_size_le)
  have a: "first_block data = 13 + 3 * k" by (simp add: first_block_def k_def)
  have len': "13 + 3 * k \<le> length data" using len by (simp add: data_def [symmetric] a)
  have ok: "reader_ok ri" and ah: "ahead ri = data" and fi: "fdata (fd ri) = data" "file_pos ri = 0"
    using pos0 buf by (simp_all add: ri_def reader_ok_def ahead_def buffered_def data_def)
  have "3 \<le> length (ahead ri)" using len' by (simp add: ah)
  from read_ahead [OF ok this] obtain r1 where r1:
    "gif_buf_read ri 3 = Some (take 3 data, r1)" "reader_ok r1" "ahead r1 = drop 3 data"
    "fdata (fd r1) = data"
    by (auto simp add: ah fi)
  have "3 \<le> length (ahead r1)" using len' by (simp add: r1(3))
  from read_ahead [OF r1(2) this] obtain r2 where r2:
    "gif_buf_read r1 3 = Some (take 3 (drop 3 data), r2)" "reader_ok r2" "ahead r2 = drop 6 data"
    "fdata (fd r2) = data"
    by (auto simp add: r1(3,4))
  have d6: "drop 6 data = data ! 6 # data ! 7 # data ! 8 # data ! 9 # data ! 10 # data ! 11
                # data ! 12 # drop 13 data"
    using len' by (simp add: Cons_nth_drop_Suc [symmetric])
  from read16_ahead [OF r2(2)] obtain w r3 where r3:
    "gif_buf_read16 r2 = Some (w, r3)" "reader_ok r3"
    "ahead r3 = data ! 8 # data ! 9 # data ! 10 # data ! 11 # data ! 12 # drop 13 data"
    "fdata (fd r3) = data"
    using r2(3,4) d6 by auto
  from read16_ahead [OF r3(2) r3(3)] obtain h r4 where r4:
    "gif_buf_read16 r3 = Some (h, r4)" "reader_ok r4"
    "ahead r4 = data ! 10 # data ! 11 # data ! 12 # drop 13 data" "fdata (fd r4) = data"
    using r3(4) by auto
  from read1_ahead [OF r4(2) r4(3)] obtain r5 where r5:
    "gif_buf_read1 r4 = Some (data ! 10, r5)" "reader_ok r5"
    "ahead r5 = data ! 11 # data ! 12 # drop 13 data" "fdata (fd r5) = data"
    using r4(4) by auto
  from read1_ahead [OF r5(2) r5(3)] obtain r6 where r6:
    "gif_buf_read1 r5 = Some (data ! 11, r6)" "reader_ok r6"
    "ahead r6 = data ! 12 # drop 13 data" "fdata (fd r6) = data"
    using r5(4) by auto
  from read1_ahead [OF r6(2) r6(3)] obtain r7 where r7:
    "gif_buf_read1 r6 = Some (data ! 12, r7)" "reader_ok r7"
    "ahead r7 = drop 13 data" "fdata (fd r7) = data"
    using r6(4) by auto
  have "3 * k \<le> length (ahead r7)" using len' by (simp add: r7(3))
  from read_ahead [OF r7(2) this] obtain r8 where r8:
    "gif_buf_read r7 (3 * k) = Some (take (3 * k) (drop 13 data), r8)" "reader_ok r8"
    "ahead r8 = drop (13 + 3 * k) data" "fdata (fd r8) = data"
    by (auto simp add: r7(3,4) add.commute)
  define pal where "pal = zero_palette\<lparr>pal_len := int k,
      colors := map (\<lambda>(a, b, c). rgb_store a b c) (triples (take (3 * k) (drop 13 data)))
                @ drop k (colors zero_palette)\<rparr>"
  have p8: "read_palette r7 zero_palette k = Some (pal, r8)"
    using k r8(1) by (simp add: read_palette_def read_palette_loop_eq pal_def zero_palette_def)
  have "file_pos r8 = 3 + 3 + 2 + 2 + 1 + 1 + 1 + of_nat (3 * k)"
    using read_file [OF r1(1)] read_file [OF r2(1)] read16_file [OF r3(1)] read16_file [OF r4(1)]
      read1_file [OF r5(1)] read1_file [OF r6(1)] read1_file [OF r7(1)] read_file [OF r8(1)] fi(2)
    by simp
  then have "file_pos r8 = of_nat (13 + 3 * k)" by simp
  moreover have "13 + 3 * k < 32768" using k by simp
  ultimately have fp: "sint (file_pos r8) = int (13 + 3 * k)" by (simp only: sint_small)
  have "gd_open_gif r0 =
     (if take 3 data \<noteq> [0x47, 0x49, 0x46] then Some (None, r1)
      else if take 3 (drop 3 data) \<noteq> [0x38, 0x39, 0x61] then Some (None, r2)
      else if data ! 10 AND 0x80 = 0 then Some (None, r5)
      else Some (Some \<lparr>anim_start = sint (file_pos r8), width = w, height = h,
                        depth = ucast (drop_bit 4 (data ! 10) AND 7) + 1, loop_count = 0, gce = zero_gce,
                        palette = Gct, lct = zero_palette, gct = pal, fx = 0, fy = 0, fw = 0,
                        fh = 0, bgindex = data ! 11, table = new_table,
                        processed_first_frame = False\<rparr>, r8))"
    unfolding gd_open_gif_def ri_def [symmetric]
    using p8 by (simp add: r1 r2 r3 r4 r5 r6 r7 Let_def k_def)
  with op have "r = r8" and "gif = \<lparr>anim_start = sint (file_pos r8), width = w, height = h,
                        depth = ucast (drop_bit 4 (data ! 10) AND 7) + 1, loop_count = 0, gce = zero_gce,
                        palette = Gct, lct = zero_palette, gct = pal, fx = 0, fy = 0, fw = 0,
                        fh = 0, bgindex = data ! 11, table = new_table,
                        processed_first_frame = False\<rparr>"
    by (auto split: if_splits)
  with r8 fp show ?thesis unfolding data_def [symmetric] a by simp
qed

section \<open>Interlaced rows of a low frame\<close>

text \<open>
  C8. For a frame two rows high the second row of the four-pass order is row 1, the
  only row left; \<^verbatim>\<open>interlaced_line_index\<close> answers 4, a row outside the frame. The
  count of rows of the second pass, \<open>(h - 5) / 8 + 1\<close>, is 1 instead of 0 when
  \<open>h\<close> is below 5, since the division truncates towards zero.
\<close>

theorem interlaced_line_index_two_rows:
  "interlaced_line_index 2 1 = 4 \<and> interlace_order 2 ! 1 = 1"
  by code_simp

section \<open>Skipping past the buffered bytes\<close>

text \<open>
  C3. With five unread bytes in the buffer at absolute position 1019, a skip of 8
  should continue at offset 1027. The seek goes to \<open>1019 + 8 - 5 = 1022\<close>: the next
  byte read is the one at offset 1022 (\<open>0xAA\<close>), not the one at 1027 (\<open>0xBB\<close>),
  while \<^verbatim>\<open>file_pos\<close> says 1027.
\<close>

theorem gif_buf_seek_short_of_target:
  "map_option fst (gif_buf_read1 (gif_buf_seek seek_reader 8)) = Some 0xAA
   \<and> file_pos (gif_buf_seek seek_reader 8) = 1027
   \<and> seek_file ! 1022 = 0xAA \<and> seek_file ! (1019 + 8) = 0xBB"
  by (simp add: seek_reader_def seek_file_def gif_buf_seek_def gif_buf_read1_def gif_buf_fill_def
      fd_read_def fd_seek_def GIF_BUF_SIZE_def nth_append Let_def)

section \<open>Opening a file\<close>

text \<open>
  C5 (as amended). For every file of at least 11 bytes, opened at position 0 by an
  object whose buffer has its 1024 bytes, \<^verbatim>\<open>gd_open_gif\<close> returns, and it returns
  a session if and only if the first six bytes are \<^verbatim>\<open>GIF89a\<close> and bit 7 of the
  packed byte of the logical screen descriptor (the byte at offset 10) is set.
\<close>

theorem gd_open_gif_succeeds_iff:
  assumes pos0: "fpos (fd r0) = 0" and len: "11 \<le> length (fdata (fd r0))"
    and buf: "length (gif_buf r0) = GIF_BUF_SIZE"
  shows "gd_open_gif r0 \<noteq> None \<and>
         ((\<exists>gif r. gd_open_gif r0 = Some (Some gif, r)) \<longleftrightarrow>
          take 6 (fdata (fd r0)) = gif89a \<and> fdata (fd r0) ! 10 AND 0x80 \<noteq> 0)"
proof -
  define data where "data = fdata (fd r0)"
  define r where "r = r0\<lparr>gif_buf_last_idx := int GIF_BUF_SIZE, gif_buf_idx := int GIF_BUF_SIZE,
                      file_pos := 0\<rparr>"
  have ok: "reader_ok r" and ah: "ahead r = data" and rb: "readable 0 r"
    using pos0 buf by (simp_all add: r_def reader_ok_def ahead_def buffered_def readable_def data_def)
  have len': "11 \<le> length data" using len by (simp add: data_def)
  have "3 \<le> length (ahead r)" using len' by (simp add: ah)
  from read_ahead [OF ok this] obtain r1 where r1:
    "gif_buf_read r 3 = Some (take 3 data, r1)" "reader_ok r1" "ahead r1 = drop 3 data"
    by (auto simp add: ah)
  have "3 \<le> length (ahead r1)" using len' by (simp add: r1(3))
  from read_ahead [OF r1(2) this] obtain r2 where r2:
    "gif_buf_read r1 3 = Some (take 3 (drop 3 data), r2)" "reader_ok r2" "ahead r2 = drop 6 data"
    by (auto simp add: r1(3))
  have d6: "drop 6 data = data ! 6 # data ! 7 # data ! 8 # data ! 9 # data ! 10 # drop 11 data"
    using len' by (simp add: Cons_nth_drop_Suc [symmetric])
  from read16_ahead [OF r2(2)] obtain w r3 where r3:
    "gif_buf_read16 r2 = Some (w, r3)" "reader_ok r3" "ahead r3 = data ! 8 # data ! 9 # data ! 10 # drop 11 data"
    using r2(3) d6 by auto
  from read16_ahead [OF r3(2) r3(3)] obtain h r4 where r4:
    "gif_buf_read16 r3 = Some (h, r4)" "reader_ok r4" "ahead r4 = data ! 10 # drop 11 data"
    by auto
  from read1_ahead [OF r4(2) r4(3)] obtain r5 where r5:
    "gif_buf_read1 r4 = Some (data ! 10, r5)" by auto
  have rb1: "readable 3 r1"
    using gif_buf_read_readable [OF rb, of 3] r1(1) by (auto simp add: GIF_BUF_SIZE_def)
  have rb2: "readable 6 r2"
    using gif_buf_read_readable [OF rb1, of 3] r2(1) by (auto simp add: GIF_BUF_SIZE_def)
  have rb3: "readable 8 r3"
    using gif_buf_read16_readable [OF rb2] r3(1) by (auto simp add: GIF_BUF_SIZE_def)
  have rb4: "readable 10 r4"
    using gif_buf_read16_readable [OF rb3] r4(1) by (auto simp add: GIF_BUF_SIZE_def)
  have rb5: "readable 11 r5"
    using gif_buf_read1_readable [OF rb4] r5(1) by (auto simp add: GIF_BUF_SIZE_def)
  from gif_buf_read1_readable [OF rb5] obtain bg r6 where r6:
    "gif_buf_read1 r5 = Some (bg, r6)" "readable 12 r6" by (auto simp add: GIF_BUF_SIZE_def)
  from gif_buf_read1_readable [OF r6(2)] obtain asp r7 where r7:
    "gif_buf_read1 r6 = Some (asp, r7)" "readable 13 r7" by (auto simp add: GIF_BUF_SIZE_def)
  have "13 + 3 * 2 ^ (unat (data ! 10 AND 0x07) + 1) \<le> GIF_BUF_SIZE"
    using gct_size_le [of "data ! 10"] by (simp add: GIF_BUF_SIZE_def)
  from read_palette_readable [OF r7(2) this, of zero_palette] obtain pal r8 where r8:
    "read_palette r7 zero_palette (2 ^ (unat (data ! 10 AND 0x07) + 1)) = Some (pal, r8)"
    using gct_size_le [of "data ! 10"] by (auto simp add: zero_palette_def)
  have six: "take 6 data = take 3 data @ take 3 (drop 3 data)"
    by (simp add: take_add [of 3 3 data, simplified])
  have l3: "length (take 3 data) = 3" "length (take 3 (drop 3 data)) = 3"
    using len' by simp_all
  have sig: "take 6 data = gif89a \<longleftrightarrow> take 3 data = [0x47, 0x49, 0x46] \<and> take 3 (drop 3 data) = [0x38, 0x39, 0x61]"
  proof -
    have "take 6 data = gif89a \<longleftrightarrow>
          take 3 data @ take 3 (drop 3 data) = [0x47, 0x49, 0x46] @ [0x38, 0x39, 0x61]"
      by (simp add: six gif89a_def)
    also have "\<dots> \<longleftrightarrow> take 3 data = [0x47, 0x49, 0x46] \<and> take 3 (drop 3 data) = [0x38, 0x39, 0x61]"
      by (rule append_eq_append_conv) (use len' in auto)
    finally show ?thesis .
  qed
  have "gd_open_gif r0 =
     (if take 3 data \<noteq> [0x47, 0x49, 0x46] then Some (None, r1)
      else if take 3 (drop 3 data) \<noteq> [0x38, 0x39, 0x61] then Some (None, r2)
      else if data ! 10 AND 0x80 = 0 then Some (None, r5)
      else Some (Some \<lparr>anim_start = sint (file_pos r8), width = w, height = h,
                        depth = ucast (drop_bit 4 (data ! 10) AND 7) + 1, loop_count = 0, gce = zero_gce,
                        palette = Gct, lct = zero_palette, gct = pal, fx = 0, fy = 0, fw = 0,
                        fh = 0, bgindex = bg, table = new_table,
                        processed_first_frame = False\<rparr>, r8))"
    unfolding gd_open_gif_def r_def [symmetric]
    using r8 by (simp add: r1 r2 r3 r4 r5 r6 r7 Let_def)
  then show ?thesis
    unfolding data_def [symmetric] sig by auto
qed

theorem gd_open_gif_succeeds_iff_witness:
  "fpos (fd (fresh_reader tiny_gif)) = 0 \<and> 11 \<le> length (fdata (fd (fresh_reader tiny_gif)))
   \<and> length (gif_buf (fresh_reader tiny_gif)) = GIF_BUF_SIZE
   \<and> gd_open_gif (fresh_reader tiny_gif) \<noteq> None
   \<and> (\<exists>gif r. gd_open_gif (fresh_reader tiny_gif) = Some (Some gif, r))"
proof -
  have h: "fpos (fd (fresh_reader tiny_gif)) = 0"
    "11 \<le> length (fdata (fd (fresh_reader tiny_gif)))"
    "length (gif_buf (fresh_reader tiny_gif)) = GIF_BUF_SIZE"
    by (simp_all add: fresh_reader_def tiny_gif_def GIF_BUF_SIZE_def)
  have "take 6 (fdata (fd (fresh_reader tiny_gif))) = gif89a
        \<and> fdata (fd (fresh_reader tiny_gif)) ! 10 AND 0x80 \<noteq> 0"
    by (simp add: fresh_reader_def tiny_gif_def gif89a_def)
  with gd_open_gif_succeeds_iff [OF h] h show ?thesis by blast
qed

text \<open>
  An empty file has no first six bytes, yet it is opened when the buffer still holds
  the header of the file played before: at the end of the source the reader goes on
  with the bytes left in \<^verbatim>\<open>gif_buf\<close>.
\<close>

theorem gd_open_gif_empty_file_counterexample:
  "map_option (map_option width \<circ> fst) (gd_open_gif stale_reader) = Some (Some 2)
   \<and> take 6 (fdata (fd stale_reader)) \<noteq> gif89a"
  by code_simp
section \<open>Runs on the concrete inputs\<close>







section \<open>What a frame writes\<close>






section \<open>Where a frame writes\<close>




section \<open>The result of a pull\<close>






end
